theory Spec2Isabelle
  imports Complex_Main "HOL-Library.Word"
begin

section \<open>Data model (shared/schema.ts)\<close>

text \<open>
  The tables of the relational store, one record per row type. Row identifiers that
  Postgres draws with \<open>gen_random_uuid()\<close> are natural numbers taken from a counter
  of the store; user and post identifiers are the strings the routes compare.
  Decimal columns and the JavaScript numbers computed from them are exact rationals:
  the model idealises IEEE doubles, and \<open>toFixed(6)\<close> is rounding to six decimal
  places. Columns that no handler modelled here reads (descriptions, transaction
  hashes, timestamps of payments) are left out.
\<close>

datatype payment_type = Content | Comment

record user =
  user_id :: string
  walletAddress :: string
  username :: string

record post =
  post_id :: string
  creatorId :: string
  title :: string
  encryptedMediaPath :: string
  blurredThumbnailPath :: string
  mediaType :: string
  encryptedKey :: string
  iv :: string
  authTag :: string
  price :: rat
  isFree :: bool
  buyoutPrice :: "rat option"
  acceptedCryptos :: string
  maxInvestors :: int
  investorRevenueShare :: rat
  commentsLocked :: bool
  commentFee :: "rat option"
  viewCount :: int
  upvoteCount :: int
  isViral :: bool
  viralDetectedAt :: "nat option"
  createdAt :: nat

record payment =
  pay_id :: nat
  pay_userId :: string
  pay_postId :: string
  pay_amount :: rat
  pay_cryptocurrency :: string
  pay_network :: string
  pay_isBuyout :: bool
  paymentType :: payment_type

record investor =
  inv_id :: nat
  inv_postId :: string
  inv_userId :: string
  position :: int
  investmentAmount :: rat
  totalEarnings :: rat

record platform_fee =
  fee_paymentId :: nat
  fee_postId :: string
  fee_amount :: rat
  fee_cryptocurrency :: string
  fee_status :: string

section \<open>Settlement breakdown (server/services/x402-payment.ts)\<close>

record payment_split =
  recipient :: string
  split_amount :: rat
  split_position :: int

record payment_result =
  success :: bool
  splits_platform :: rat
  splits_creator :: rat
  splits_investors :: "payment_split list option"

record investor_wallet =
  iw_userId :: string
  iw_walletAddress :: string
  iw_position :: int

definition PLATFORM_FEE_USDC :: rat where
  "PLATFORM_FEE_USDC = 5 / 100"

text \<open>
  \<open>Number.prototype.toFixed(6)\<close>: the decimal with six fraction digits nearest to the
  number, the larger one on a tie; a negative number is formatted from its absolute value.
\<close>

definition toFixed6 :: "rat \<Rightarrow> rat" where
  "toFixed6 x =
     (if x < 0 then - (of_int \<lfloor>(- x) * 1000000 + 1 / 2\<rfloor> / 1000000)
      else of_int \<lfloor>x * 1000000 + 1 / 2\<rfloor> / 1000000)"

definition calculateInvestorSplits ::
  "rat \<Rightarrow> rat \<Rightarrow> investor_wallet list \<Rightarrow> payment_split list" where
  "calculateInvestorSplits paymentAmount investorRevenueSharePercent invs =
     (let afterPlatformFee = paymentAmount - PLATFORM_FEE_USDC;
          investorShareTotal = afterPlatformFee * (investorRevenueSharePercent / 100);
          perInvestor = investorShareTotal / of_nat (length invs)
      in map (\<lambda>inv. \<lparr>recipient = iw_walletAddress inv,
                       split_amount = toFixed6 perInvestor,
                       split_position = iw_position inv\<rparr>) invs)"

text \<open>
  Both chain-specific paths compute the same breakdown. The flag says whether the body
  of the \<open>try\<close> block threw (network lookup, chain client): the \<open>catch\<close> then
  returns \<open>{success: false}\<close> and no splits.
\<close>

definition failed_result :: payment_result where
  "failed_result =
     \<lparr>success = False, splits_platform = 0, splits_creator = 0, splits_investors = None\<rparr>"

definition processEvmPayment ::
  "bool \<Rightarrow> rat \<Rightarrow> string \<Rightarrow> string \<Rightarrow> payment_split list option \<Rightarrow> payment_result" where
  "processEvmPayment throws totalAmount cryptocurrency creatorWallet investorSplits =
     (if throws then failed_result
      else let platformFee = PLATFORM_FEE_USDC;
               creatorAmount = totalAmount - platformFee
           in \<lparr>success = True, splits_platform = platformFee,
               splits_creator = creatorAmount, splits_investors = investorSplits\<rparr>)"

definition processSolanaPayment ::
  "bool \<Rightarrow> rat \<Rightarrow> string \<Rightarrow> payment_split list option \<Rightarrow> payment_result" where
  "processSolanaPayment throws totalAmount creatorWallet investorSplits =
     (if throws then failed_result
      else let platformFee = PLATFORM_FEE_USDC;
               creatorAmount = totalAmount - platformFee
           in \<lparr>success = True, splits_platform = platformFee,
               splits_creator = creatorAmount, splits_investors = investorSplits\<rparr>)"

record split_params =
  sp_totalAmount :: rat
  sp_cryptocurrency :: string
  sp_creatorWallet :: string
  sp_investorRevenueSharePercent :: "rat option"
  sp_investors :: "investor_wallet list option"

definition processPaymentWithSplits :: "bool \<Rightarrow> split_params \<Rightarrow> payment_result" where
  "processPaymentWithSplits throws params =
     (let investorSplits =
            (case (sp_investors params, sp_investorRevenueSharePercent params) of
               (Some invs, Some pct) \<Rightarrow>
                 if 0 < length invs \<and> pct \<noteq> 0
                 then Some (calculateInvestorSplits (sp_totalAmount params) pct invs)
                 else None
             | _ \<Rightarrow> None)
      in if sp_cryptocurrency params = ''SOL''
         then processSolanaPayment throws (sp_totalAmount params)
                (sp_creatorWallet params) investorSplits
         else processEvmPayment throws (sp_totalAmount params)
                (sp_cryptocurrency params) (sp_creatorWallet params) investorSplits)"

text \<open>The sum of the investor amounts of a breakdown (none when there are no splits).\<close>

definition investor_total :: "payment_result \<Rightarrow> rat" where
  "investor_total r =
     (case splits_investors r of None \<Rightarrow> 0 | Some sps \<Rightarrow> sum_list (map split_amount sps))"

section \<open>The store and what the server emits\<close>

datatype ws_message =
    ViralNotification string string
  | BuyoutUpdate string nat "(string \<times> rat) list"
  | InvestorEarningsUpdate string string rat

record store =
  users :: "user list"
  posts :: "post list"
  payments :: "payment list"
  platformFees :: "platform_fee list"
  investors :: "investor list"
  nextId :: nat
  sent :: "ws_message list"
  settled :: "payment_result list"

text \<open>
  \<open>sent\<close> is the sequence of messages handed to \<open>broadcast\<close>; \<open>settled\<close> is the
  sequence of breakdowns computed by \<open>processPaymentWithSplits\<close>, which the service only
  logs. Notifications and direct messages written by the payment route go to tables that
  nothing here reads, and their failures are caught where they are made; they are omitted.
\<close>

definition broadcast :: "ws_message \<Rightarrow> store \<Rightarrow> store" where
  "broadcast m s = s\<lparr>sent := sent s @ [m]\<rparr>"

section \<open>Storage operations (server/storage.ts)\<close>

definition getPost :: "store \<Rightarrow> string \<Rightarrow> post option" where
  "getPost s pid = find (\<lambda>p. post_id p = pid) (posts s)"

definition getUserByWalletAddress :: "store \<Rightarrow> string \<Rightarrow> user option" where
  "getUserByWalletAddress s w = find (\<lambda>u. walletAddress u = w) (users s)"

definition getUserById :: "store \<Rightarrow> string \<Rightarrow> user option" where
  "getUserById s uid = find (\<lambda>u. user_id u = uid) (users s)"

definition matching_payment :: "string \<Rightarrow> string \<Rightarrow> payment_type \<Rightarrow> payment \<Rightarrow> bool" where
  "matching_payment uid pid pt pr =
     (pay_userId pr = uid \<and> pay_postId pr = pid \<and> paymentType pr = pt)"

definition hasUserPaid :: "store \<Rightarrow> string \<Rightarrow> string \<Rightarrow> payment_type \<Rightarrow> bool" where
  "hasUserPaid s uid pid pt =
     (let found = (find (matching_payment uid pid pt) (payments s) \<noteq> None)
      in case getPost s pid of
           Some p \<Rightarrow> if isFree p then True else found
         | None \<Rightarrow> found)"

text \<open>
  The ledger operation as the specification words it: true without condition when the
  post is free and the payment type is content, otherwise true exactly when a matching
  record exists.
\<close>

definition spec_hasPaid :: "store \<Rightarrow> string \<Rightarrow> string \<Rightarrow> payment_type \<Rightarrow> bool" where
  "spec_hasPaid s uid pid pt =
     (if (\<exists>p \<in> set (posts s). post_id p = pid \<and> isFree p) \<and> pt = Content then True
      else (\<exists>pr \<in> set (payments s). matching_payment uid pid pt pr))"


definition incrementViewCount :: "store \<Rightarrow> string \<Rightarrow> store" where
  "incrementViewCount s pid =
     s\<lparr>posts := map (\<lambda>p. if post_id p = pid then p\<lparr>viewCount := viewCount p + 1\<rparr> else p)
                    (posts s)\<rparr>"

definition markPostViral :: "store \<Rightarrow> nat \<Rightarrow> string \<Rightarrow> store" where
  "markPostViral s now pid =
     s\<lparr>posts := map (\<lambda>p. if post_id p = pid
                          then p\<lparr>isViral := True, viralDetectedAt := Some now\<rparr> else p)
                    (posts s)\<rparr>"

text \<open>
  \<open>createPayment\<close> inserts the row, which the unique constraint on (user, post,
  payment type) may refuse, and then reads the post and the two users again. The two
  flags say whether the insert and the later reads fail for a reason outside the model
  (connection loss); the result is the new row, or nothing when the call threw.
\<close>

definition createPayment ::
  "bool \<Rightarrow> bool \<Rightarrow> payment \<Rightarrow> store \<Rightarrow> store \<times> payment option" where
  "createPayment insertFails lookupFails ins s =
     (if insertFails \<or>
         (\<exists>pr \<in> set (payments s).
            matching_payment (pay_userId ins) (pay_postId ins) (paymentType ins) pr)
      then (s, None)
      else let row = ins\<lparr>pay_id := nextId s\<rparr>;
               s1 = s\<lparr>payments := payments s @ [row], nextId := nextId s + 1\<rparr>
           in if lookupFails then (s1, None) else (s1, Some row))"

definition investorsOfPost :: "store \<Rightarrow> string \<Rightarrow> investor list" where
  "investorsOfPost s pid = filter (\<lambda>i. inv_postId i = pid) (investors s)"

definition getInvestorCount :: "store \<Rightarrow> string \<Rightarrow> nat" where
  "getInvestorCount s pid = length (investorsOfPost s pid)"

text \<open>
  Inserting an investor row; the table is unique on (post, user) and on (post, position).
  The result is nothing when the insert is refused.
\<close>

definition insertInvestor :: "investor \<Rightarrow> store \<Rightarrow> store option" where
  "insertInvestor ins s =
     (if (\<exists>i \<in> set (investors s).
            inv_postId i = inv_postId ins \<and>
            (inv_userId i = inv_userId ins \<or> position i = position ins))
      then None
      else Some (s\<lparr>investors := investors s @ [ins\<lparr>inv_id := nextId s\<rparr>],
                   nextId := nextId s + 1\<rparr>))"

definition setTotalEarnings :: "nat \<Rightarrow> rat \<Rightarrow> store \<Rightarrow> store" where
  "setTotalEarnings rid v s =
     s\<lparr>investors := map (\<lambda>i. if inv_id i = rid then i\<lparr>totalEarnings := v\<rparr> else i)
                        (investors s)\<rparr>"

section \<open>Failures of the environment\<close>

text \<open>
  Every statement sent to the database can fail for reasons the program does not
  control. A handler is run against a function that says, for each such statement,
  whether it throws in this run.
\<close>

datatype dbop =
    OpGetCurrentUser | OpGetPost | OpIncrementViewCount | OpHasUserPaid
  | OpCountInvestors | OpInsertPayment | OpCreatePaymentLookup | OpInsertPlatformFee
  | OpSelectCreator | OpSelectInvestors | OpCountPayments | OpInsertInvestor
  | OpUpdateInvestor nat | OpSelectInvestorUsers | OpSettlement | OpGetInvestorCount
  | OpSelectUpdatedInvestors | OpInsertCommentPayment
  | OpGetAllPosts | OpMarkPostViral string

type_synonym faults = "dbop \<Rightarrow> bool"

definition no_faults :: faults where
  "no_faults = (\<lambda>_. False)"

definition getCurrentUser :: "faults \<Rightarrow> store \<Rightarrow> string option \<Rightarrow> user option" where
  "getCurrentUser f s w =
     (case w of
        None \<Rightarrow> None
      | Some a \<Rightarrow> if a = [] then None
                  else if f OpGetCurrentUser then None
                  else getUserByWalletAddress s a)"

section \<open>Serving media (GET /api/posts/:id/media)\<close>

type_synonym bytes = "8 word list"

text \<open>
  What the route takes from outside the repository: the blob store (a read gives the
  bytes or fails), AES-256-GCM opening from the platform's crypto module (the plaintext,
  or failure when the tag does not verify), base64 decoding, and the master key.
\<close>

record crypto_env =
  readEncryptedFile :: "string \<Rightarrow> bytes option"
  aes_gcm_open :: "bytes \<Rightarrow> bytes \<Rightarrow> bytes \<Rightarrow> bytes \<Rightarrow> bytes option"
  base64 :: "string \<Rightarrow> bytes"
  MASTER_KEY_BUFFER :: bytes

definition decryptBuffer ::
  "crypto_env \<Rightarrow> bytes \<Rightarrow> bytes \<Rightarrow> bytes \<Rightarrow> bytes \<Rightarrow> bytes option" where
  "decryptBuffer c encrypted key iv' tag = aes_gcm_open c encrypted key iv' tag"

definition decryptContentKey :: "crypto_env \<Rightarrow> string \<Rightarrow> string \<Rightarrow> string \<Rightarrow> bytes option" where
  "decryptContentKey c encKey iv' tag =
     decryptBuffer c (base64 c encKey) (MASTER_KEY_BUFFER c) (base64 c iv') (base64 c tag)"

datatype media_response =
    Media_not_found
  | Media_error
  | Media_redirect string
  | Media_send string bytes

text \<open>
  The body of the two \<open>try\<close> blocks of the route, which are the same: read the file,
  open the content key, cut the file into IV, ciphertext and tag, decrypt, send. Any
  failure inside is caught and answered with a redirect to the blurred thumbnail.
\<close>

definition decrypt_and_send :: "crypto_env \<Rightarrow> post \<Rightarrow> media_response" where
  "decrypt_and_send c p =
     (case readEncryptedFile c (encryptedMediaPath p) of
        None \<Rightarrow> Media_redirect (blurredThumbnailPath p)
      | Some encryptedBuffer \<Rightarrow>
          (case decryptContentKey c (encryptedKey p) (iv p) (authTag p) of
             None \<Rightarrow> Media_redirect (blurredThumbnailPath p)
           | Some contentKey \<Rightarrow>
               (let n = length encryptedBuffer;
                    fileIv = take 12 encryptedBuffer;
                    fileAuthTag = drop (n - 16) encryptedBuffer;
                    fileEncryptedData = take (n - 16 - 12) (drop 12 encryptedBuffer)
                in case decryptBuffer c fileEncryptedData contentKey fileIv fileAuthTag of
                     None \<Rightarrow> Media_redirect (blurredThumbnailPath p)
                   | Some decryptedBuffer \<Rightarrow>
                       Media_send (if mediaType p = ''image'' then ''image/jpeg''
                                   else ''video/mp4'') decryptedBuffer)))"

definition get_media ::
  "faults \<Rightarrow> crypto_env \<Rightarrow> store \<Rightarrow> string option \<Rightarrow> string \<Rightarrow> media_response" where
  "get_media f c s wallet pid =
     (let usr = getCurrentUser f s wallet
      in if f OpGetPost then Media_error
         else case getPost s pid of
           None \<Rightarrow> Media_not_found
         | Some p \<Rightarrow>
             if isFree p then decrypt_and_send c p
             else
               (case usr of
                  None \<Rightarrow> Media_redirect (blurredThumbnailPath p)
                | Some u \<Rightarrow>
                    if user_id u = creatorId p then decrypt_and_send c p
                    else if f OpHasUserPaid then Media_error
                    else if hasUserPaid s (user_id u) pid Content then decrypt_and_send c p
                    else Media_redirect (blurredThumbnailPath p)))"

section \<open>Viral detection (the cron job of server/routes.ts)\<close>

definition VIRAL_UPVOTE_THRESHOLD :: int where
  "VIRAL_UPVOTE_THRESHOLD = 10"

text \<open>
  \<open>getAllPostsWithCreators\<close>: every post with its creator (a left join, so the creator
  may be missing), newest first.
\<close>

definition getAllPostsWithCreators :: "store \<Rightarrow> (post \<times> user option) list" where
  "getAllPostsWithCreators s =
     map (\<lambda>p. (p, getUserById s (creatorId p))) (rev (sort_key createdAt (posts s)))"

text \<open>
  The loop over the snapshot. A throw (from \<open>markPostViral\<close>, or from reading the
  user name of a missing creator while building the message) leaves the loop: the whole
  loop is inside one \<open>try\<close>.
\<close>

fun sweep_loop :: "faults \<Rightarrow> nat \<Rightarrow> (post \<times> user option) list \<Rightarrow> store \<Rightarrow> store" where
  "sweep_loop f now [] s = s"
| "sweep_loop f now ((p, c) # rest) s =
     (if isViral p then sweep_loop f now rest s
      else if VIRAL_UPVOTE_THRESHOLD \<le> upvoteCount p then
        (if f (OpMarkPostViral (post_id p)) then s
         else let s1 = markPostViral s now (post_id p)
              in case c of
                   None \<Rightarrow> s1
                 | Some u \<Rightarrow>
                     sweep_loop f now rest
                       (broadcast (ViralNotification (post_id p) (title p @ '' by '' @ username u)) s1))
      else sweep_loop f now rest s)"

definition viral_detection :: "faults \<Rightarrow> nat \<Rightarrow> store \<Rightarrow> store" where
  "viral_detection f now s =
     (if f OpGetAllPosts then s else sweep_loop f now (getAllPostsWithCreators s) s)"

text \<open>A sequence of runs of the job, each with its own failures and clock.\<close>

fun viral_runs :: "(faults \<times> nat) list \<Rightarrow> store \<Rightarrow> store" where
  "viral_runs [] s = s"
| "viral_runs ((f, now) # rs) s = viral_runs rs (viral_detection f now s)"

definition viral_events :: "string \<Rightarrow> store \<Rightarrow> ws_message list" where
  "viral_events pid s =
     filter (\<lambda>m. case m of ViralNotification q _ \<Rightarrow> q = pid | _ \<Rightarrow> False) (sent s)"

definition post_is_viral :: "store \<Rightarrow> string \<Rightarrow> bool" where
  "post_is_viral s pid = (\<exists>p \<in> set (posts s). post_id p = pid \<and> isViral p)"


section \<open>Paying for a post (POST /api/posts/:id/pay)\<close>

record pay_request =
  wallet :: "string option"
  req_postId :: string
  amount :: rat
  cryptocurrency :: "string option"
  network :: "string option"
  isBuyout :: bool

datatype response =
    Unauthorized
  | Post_not_found
  | Currency_not_accepted
  | Invalid_network
  | Slots_full
  | Server_error
  | Success bool

text \<open>\<open>String.prototype.split(',')\<close>: the pieces between the commas, one piece at least.\<close>

fun split_comma :: "string \<Rightarrow> string list" where
  "split_comma [] = [[]]"
| "split_comma (c # cs) =
     (if c = CHR '','' then [] # split_comma cs
      else case split_comma cs of
             w # ws \<Rightarrow> (c # w) # ws
           | [] \<Rightarrow> [[c]])"

text \<open>\<open>x || d\<close> on an optional string: the default when \<open>x\<close> is missing or empty.\<close>

definition or_default :: "string option \<Rightarrow> string \<Rightarrow> string" where
  "or_default x d = (case x of None \<Rightarrow> d | Some v \<Rightarrow> if v = [] then d else v)"

definition validNetworks :: "bool \<Rightarrow> string \<Rightarrow> string list option" where
  "validNetworks isProduction c =
     (if c = ''USDC'' then Some (if isProduction then [''base-mainnet'']
                                 else [''base-sepolia'', ''ethereum-sepolia'', ''polygon-mumbai''])
      else if c = ''SOL'' then Some (if isProduction then [''solana-mainnet''] else [''solana-devnet''])
      else if c = ''ETH'' then Some (if isProduction then [''ethereum-mainnet''] else [''ethereum-sepolia''])
      else if c = ''MATIC'' then Some (if isProduction then [''polygon-mainnet''] else [''polygon-mumbai''])
      else if c = ''BNB'' then Some (if isProduction then [''bsc-mainnet''] else [''bsc-testnet''])
      else None)"

definition selectedNetwork :: "bool \<Rightarrow> pay_request \<Rightarrow> string" where
  "selectedNetwork isProduction req =
     or_default (network req) (if isProduction then ''base-mainnet'' else ''base-sepolia'')"

definition network_rejected :: "bool \<Rightarrow> pay_request \<Rightarrow> bool" where
  "network_rejected isProduction req =
     (case cryptocurrency req of
        None \<Rightarrow> False
      | Some c \<Rightarrow>
          if c = [] then False
          else case validNetworks isProduction c of
                 None \<Rightarrow> False
               | Some ns \<Rightarrow> selectedNetwork isProduction req \<notin> set ns)"

definition maxInvestorSlots :: "post \<Rightarrow> int" where
  "maxInvestorSlots p = (if maxInvestors p = 0 then 10 else maxInvestors p)"

definition existingInvestors :: "store \<Rightarrow> string \<Rightarrow> investor list" where
  "existingInvestors s pid = sort_key position (investorsOfPost s pid)"

definition totalPayments :: "store \<Rightarrow> string \<Rightarrow> nat" where
  "totalPayments s pid =
     length (filter (\<lambda>pr. pay_postId pr = pid \<and> paymentType pr = Content) (payments s))"

text \<open>
  The loop that credits the investors, one \<open>UPDATE\<close> per row of the snapshot; a
  failing update throws out of the loop. The flag of the result says whether the loop
  ran to its end.
\<close>

fun distribute :: "faults \<Rightarrow> rat \<Rightarrow> investor list \<Rightarrow> store \<Rightarrow> store \<times> bool" where
  "distribute f earningsPerInvestor [] s = (s, True)"
| "distribute f earningsPerInvestor (investor # rest) s =
     (if f (OpUpdateInvestor (inv_id investor)) then (s, False)
      else distribute f earningsPerInvestor rest
             (setTotalEarnings (inv_id investor)
                (toFixed6 (totalEarnings investor + earningsPerInvestor)) s))"

definition investorsWithWallets :: "store \<Rightarrow> investor list \<Rightarrow> investor_wallet list" where
  "investorsWithWallets s invs =
     map (\<lambda>inv. \<lparr>iw_userId = inv_userId inv,
                  iw_walletAddress =
                    (case find (\<lambda>u. user_id u = inv_userId inv)
                            (filter (\<lambda>u. user_id u \<in> set (map inv_userId invs)) (users s)) of
                       None \<Rightarrow> []
                     | Some u \<Rightarrow> walletAddress u),
                  iw_position = position inv\<rparr>) invs"

definition settle :: "faults \<Rightarrow> split_params \<Rightarrow> store \<Rightarrow> store" where
  "settle f params s = s\<lparr>settled := settled s @ [processPaymentWithSplits (f OpSettlement) params]\<rparr>"

text \<open>
  The part of the route between the platform-fee record and the broadcasts: the creator,
  the investors of the post and the number of content payments are read, then either
  the payer becomes an investor, or the investors are credited, or nothing of the two.
\<close>

definition allocate ::
  "faults \<Rightarrow> pay_request \<Rightarrow> user \<Rightarrow> post \<Rightarrow> store \<Rightarrow> store \<times> bool" where
  "allocate f req usr p s =
     (if f OpSelectCreator \<or> f OpSelectInvestors \<or> f OpCountPayments then (s, False)
      else
        let creator = getUserById s (creatorId p);
            existing = existingInvestors s (post_id p);
            paymentNumber = totalPayments s (post_id p);
            crypto = or_default (cryptocurrency req) ''USDC''
        in if isBuyout req \<and> int (length existing) < maxInvestorSlots p then
             (if f OpInsertInvestor then (s, False)
              else case insertInvestor
                          \<lparr>inv_id = 0, inv_postId = post_id p, inv_userId = user_id usr,
                           position = int (length existing) + 1,
                           investmentAmount = (case buyoutPrice p of Some b \<Rightarrow> b | None \<Rightarrow> price p),
                           totalEarnings = 0\<rparr> s of
                     None \<Rightarrow> (s, False)
                   | Some s1 \<Rightarrow> (s1, True))
           else if maxInvestorSlots p < int paymentNumber
                   \<and> int (length existing) = maxInvestorSlots p
                   \<and> 0 < investorRevenueShare p then
             (let paymentAmount = amount req;
                  revenueAfterPlatformFee = paymentAmount - PLATFORM_FEE_USDC;
                  investorSharePercentage = investorRevenueShare p / 100;
                  totalInvestorShare = revenueAfterPlatformFee * investorSharePercentage;
                  earningsPerInvestor = totalInvestorShare / of_nat (length existing)
              in case distribute f earningsPerInvestor existing s of
                   (s1, False) \<Rightarrow> (s1, False)
                 | (s1, True) \<Rightarrow>
                     if f OpSelectInvestorUsers then (s1, False)
                     else
                       (case creator of
                          None \<Rightarrow> (s1, True)
                        | Some cr \<Rightarrow>
                            (settle f
                               \<lparr>sp_totalAmount = amount req, sp_cryptocurrency = crypto,
                                sp_creatorWallet = walletAddress cr,
                                sp_investorRevenueSharePercent = Some (investorRevenueShare p),
                                sp_investors =
                                  Some (filter (\<lambda>iw. iw_walletAddress iw \<noteq> [])
                                          (investorsWithWallets s1 existing))\<rparr> s1, True)))
           else
             (case creator of
                None \<Rightarrow> (s, True)
              | Some cr \<Rightarrow>
                  if isFree p then (s, True)
                  else (settle f
                          \<lparr>sp_totalAmount = amount req, sp_cryptocurrency = crypto,
                           sp_creatorWallet = walletAddress cr,
                           sp_investorRevenueSharePercent = None,
                           sp_investors = None\<rparr> s, True)))"

text \<open>
  The two rows the route hands to \<open>createPayment\<close>: the content payment of the request,
  and the comment-access payment of amount \<open>'0'\<close>. The identifier is filled in by the
  insert.
\<close>

definition content_row :: "bool \<Rightarrow> pay_request \<Rightarrow> user \<Rightarrow> post \<Rightarrow> nat \<Rightarrow> payment" where
  "content_row isProduction req usr p i =
     \<lparr>pay_id = i, pay_userId = user_id usr, pay_postId = post_id p, pay_amount = amount req,
      pay_cryptocurrency = or_default (cryptocurrency req) ''USDC'',
      pay_network = selectedNetwork isProduction req,
      pay_isBuyout = isBuyout req, paymentType = Content\<rparr>"

definition comment_row :: "pay_request \<Rightarrow> user \<Rightarrow> post \<Rightarrow> nat \<Rightarrow> payment" where
  "comment_row req usr p i =
     \<lparr>pay_id = i, pay_userId = user_id usr, pay_postId = post_id p, pay_amount = 0,
      pay_cryptocurrency = or_default (cryptocurrency req) ''USDC'',
      pay_network = or_default (network req) ''base-sepolia'',
      pay_isBuyout = False, paymentType = Comment\<rparr>"

text \<open>The two kinds of broadcast after a payment: one summary, then one message per investor.\<close>

definition broadcast_updates :: "string \<Rightarrow> store \<Rightarrow> store" where
  "broadcast_updates pid s =
     (let newInvestorCount = getInvestorCount s pid;
          updatedInvestors = investorsOfPost s pid;
          s1 = broadcast (BuyoutUpdate pid newInvestorCount
                            (map (\<lambda>i. (inv_userId i, totalEarnings i)) updatedInvestors)) s
      in foldl (\<lambda>st i. broadcast (InvestorEarningsUpdate (inv_userId i) pid (totalEarnings i)) st)
           s1 updatedInvestors)"

text \<open>
  The end of the route: the broadcasts, then the comment-access record when the comments
  of the post are locked, then the answer.
\<close>

definition finish_payment ::
  "faults \<Rightarrow> pay_request \<Rightarrow> user \<Rightarrow> post \<Rightarrow> store \<Rightarrow> response \<times> store" where
  "finish_payment f req usr p s =
     (if f OpGetInvestorCount \<or> f OpSelectUpdatedInvestors then (Server_error, s)
      else
        let s1 = broadcast_updates (post_id p) s
        in if commentsLocked p then
             (case createPayment (f OpInsertCommentPayment) (f OpCreatePaymentLookup)
                     (comment_row req usr p 0) s1 of
                (s2, None) \<Rightarrow> (Server_error, s2)
              | (s2, Some _) \<Rightarrow> (Success False, s2))
           else (Success False, s1))"

text \<open>
  The unit of work once the request has passed every check: the payment record, the
  platform-fee record, the allocation, the end of the route. Each throw is answered
  with status 500 by the \<open>catch\<close> of the route; the store is what the statements
  executed so far have made of it.
\<close>

definition record_payment ::
  "faults \<Rightarrow> bool \<Rightarrow> pay_request \<Rightarrow> user \<Rightarrow> post \<Rightarrow> store \<Rightarrow> response \<times> store" where
  "record_payment f isProduction req usr p s =
     (case createPayment (f OpInsertPayment) (f OpCreatePaymentLookup)
             (content_row isProduction req usr p 0) s of
        (s1, None) \<Rightarrow> (Server_error, s1)
      | (s1, Some paymentRecord) \<Rightarrow>
          if \<not> isFree p \<and> f OpInsertPlatformFee then (Server_error, s1)
          else
            let s2 = (if isFree p then s1
                      else s1\<lparr>platformFees := platformFees s1 @
                                 [\<lparr>fee_paymentId = pay_id paymentRecord, fee_postId = post_id p,
                                   fee_amount = PLATFORM_FEE_USDC, fee_cryptocurrency = ''USDC'',
                                   fee_status = ''completed''\<rparr>]\<rparr>)
            in case allocate f req usr p s2 of
                 (s3, False) \<Rightarrow> (Server_error, s3)
               | (s3, True) \<Rightarrow> finish_payment f req usr p s3)"

definition pay :: "faults \<Rightarrow> bool \<Rightarrow> pay_request \<Rightarrow> store \<Rightarrow> response \<times> store" where
  "pay f isProduction req s =
     (case getCurrentUser f s (wallet req) of
        None \<Rightarrow> (Unauthorized, s)
      | Some usr \<Rightarrow>
          if f OpGetPost then (Server_error, s)
          else case getPost s (req_postId req) of
            None \<Rightarrow> (Post_not_found, s)
          | Some p \<Rightarrow>
              let s1 = (if f OpIncrementViewCount then s
                        else incrementViewCount s (req_postId req))
              in if (case cryptocurrency req of
                       None \<Rightarrow> True
                     | Some c \<Rightarrow> c \<notin> set (split_comma (acceptedCryptos p)))
                 then (Currency_not_accepted, s1)
                 else if f OpHasUserPaid then (Server_error, s1)
                 else if hasUserPaid s1 (user_id usr) (post_id p) Content
                 then (Success True, s1)
                 else if network_rejected isProduction req then (Invalid_network, s1)
                 else if f OpCountInvestors then (Server_error, s1)
                 else if isBuyout req
                         \<and> maxInvestorSlots p \<le> int (getInvestorCount s1 (post_id p))
                 then (Slots_full, s1)
                 else record_payment f isProduction req usr p s1)"

text \<open>A sequence of payment requests, each with its own failures; the answers in order.\<close>

fun pay_all ::
  "bool \<Rightarrow> (faults \<times> pay_request) list \<Rightarrow> store \<Rightarrow> response list \<times> store" where
  "pay_all isProduction [] s = ([], s)"
| "pay_all isProduction ((f, req) # rest) s =
     (case pay f isProduction req s of
        (r, s1) \<Rightarrow> (case pay_all isProduction rest s1 of (rs, s2) \<Rightarrow> (r # rs, s2)))"

section \<open>Observations used by the properties\<close>

text \<open>Crediting an investor row with a share, as one iteration of the loop does.\<close>

definition credit :: "rat \<Rightarrow> investor \<Rightarrow> investor" where
  "credit e i = i\<lparr>totalEarnings := toFixed6 (totalEarnings i + e)\<rparr>"

text \<open>The positions held on a post, in the order in which the rows were inserted.\<close>

definition slot_positions :: "store \<Rightarrow> string \<Rightarrow> int list" where
  "slot_positions s pid = map position (investorsOfPost s pid)"

text \<open>
  How many requests of a sequence were buyouts of the post that the route answered with
  success and \<open>alreadyPaid: false\<close>.
\<close>

fun successful_buyouts :: "string \<Rightarrow> (faults \<times> pay_request) list \<Rightarrow> response list \<Rightarrow> nat" where
  "successful_buyouts pid ((f, req) # reqs) (r # rs) =
     (if r = Success False \<and> isBuyout req \<and> req_postId req = pid then 1 else 0)
     + successful_buyouts pid reqs rs"
| "successful_buyouts pid _ _ = 0"

text \<open>
  What the route keeps true of the investors table: row identifiers are distinct and
  below the counter, and a post has at least as many content payments as investors.
\<close>

definition ledger_ok :: "store \<Rightarrow> bool" where
  "ledger_ok s =
     (distinct (map inv_id (investors s))
      \<and> (\<forall>i \<in> set (investors s). inv_id i < nextId s)
      \<and> (\<forall>i \<in> set (investors s).
            getInvestorCount s (inv_postId i) \<le> totalPayments s (inv_postId i)))"

text \<open>Two stores whose investor rows differ at most in the earnings.\<close>

definition same_slots :: "store \<Rightarrow> store \<Rightarrow> bool" where
  "same_slots s s' =
     (map (\<lambda>i. i\<lparr>totalEarnings := 0\<rparr>) (investors s')
      = map (\<lambda>i. i\<lparr>totalEarnings := 0\<rparr>) (investors s))"

section \<open>Example data\<close>

definition ex_creator :: user where
  "ex_creator = \<lparr>user_id = ''u0'', walletAddress = ''0xC0'', username = ''carol''\<rparr>"

definition ex_alice :: user where
  "ex_alice = \<lparr>user_id = ''u1'', walletAddress = ''0xA1'', username = ''alice''\<rparr>"

definition ex_bob :: user where
  "ex_bob = \<lparr>user_id = ''u2'', walletAddress = ''0xB2'', username = ''bob''\<rparr>"

definition ex_dave :: user where
  "ex_dave = \<lparr>user_id = ''u3'', walletAddress = ''0xD3'', username = ''dave''\<rparr>"

text \<open>
  The post of the specification's scenario: two investor slots, buyout price 10, price 5,
  20 percent revenue share; its comments are locked.
\<close>

definition ex_post :: post where
  "ex_post =
     \<lparr>post_id = ''p1'', creatorId = ''u0'', title = ''sunset'',
      encryptedMediaPath = ''a.jpg.enc'', blurredThumbnailPath = ''/uploads/thumbnails/a.jpg'',
      mediaType = ''image'', encryptedKey = ''a2V5'', iv = ''aXY='', authTag = ''dGFn'',
      price = 5, isFree = False, buyoutPrice = Some 10, acceptedCryptos = ''USDC,SOL'',
      maxInvestors = 2, investorRevenueShare = 20, commentsLocked = True, commentFee = Some 1,
      viewCount = 0, upvoteCount = 0, isViral = False, viralDetectedAt = None, createdAt = 1\<rparr>"

definition ex_store :: store where
  "ex_store =
     \<lparr>users = [ex_creator, ex_alice, ex_bob, ex_dave], posts = [ex_post], payments = [],
      platformFees = [], investors = [], nextId = 0, sent = [], settled = []\<rparr>"

definition ex_free_store :: store where
  "ex_free_store = ex_store\<lparr>posts := [ex_post\<lparr>isFree := True\<rparr>]\<rparr>"

definition ex_params :: split_params where
  "ex_params =
     \<lparr>sp_totalAmount = 5, sp_cryptocurrency = ''USDC'', sp_creatorWallet = ''0xC0'',
      sp_investorRevenueSharePercent = Some 20,
      sp_investors = Some [\<lparr>iw_userId = ''u1'', iw_walletAddress = ''0xA1'', iw_position = 1\<rparr>]\<rparr>"

text \<open>Three posts for the viral job: one viral already, one over the threshold, one under it.\<close>

definition ex_viral_store :: store where
  "ex_viral_store =
     ex_store\<lparr>posts := [ex_post\<lparr>upvoteCount := 20, isViral := True, viralDetectedAt := Some 3\<rparr>,
                         ex_post\<lparr>post_id := ''p2'', upvoteCount := 12, createdAt := 2\<rparr>,
                         ex_post\<lparr>post_id := ''p3'', upvoteCount := 3, createdAt := 3\<rparr>]\<rparr>"

text \<open>
  An environment for the media route: a blob store holding one file of 12 + 3 + 16 bytes,
  and stand-ins for the cipher and the decoder (opening returns the ciphertext and fails
  only on an empty tag). In the second environment every opening fails, as it does on a
  corrupt file.
\<close>

definition ex_crypto :: crypto_env where
  "ex_crypto =
     \<lparr>readEncryptedFile = (\<lambda>n. if n = ''a.jpg.enc''
                                 then Some (replicate 12 0 @ [1, 2, 3] @ replicate 16 9) else None),
      aes_gcm_open = (\<lambda>ct key iv' tag. if tag = [] then None else Some ct),
      base64 = map (\<lambda>ch. of_nat (of_char ch)),
      MASTER_KEY_BUFFER = replicate 32 48\<rparr>"

definition ex_crypto_corrupt :: crypto_env where
  "ex_crypto_corrupt = ex_crypto\<lparr>aes_gcm_open := (\<lambda>ct key iv' tag. None)\<rparr>"

text \<open>Requests: Alice and Bob ask for a buyout, Dave pays the regular price.\<close>

definition ex_req_alice :: pay_request where
  "ex_req_alice =
     \<lparr>wallet = Some ''0xA1'', req_postId = ''p1'', amount = 10,
      cryptocurrency = Some ''USDC'', network = None, isBuyout = True\<rparr>"

definition ex_req_bob :: pay_request where
  "ex_req_bob = ex_req_alice\<lparr>wallet := Some ''0xB2''\<rparr>"

definition ex_req_dave :: pay_request where
  "ex_req_dave = ex_req_alice\<lparr>wallet := Some ''0xD3'', amount := 5, isBuyout := False\<rparr>"

text \<open>The store after Alice has paid for the content of the post.\<close>

definition ex_paid_store :: store where
  "ex_paid_store =
     ex_store\<lparr>payments := [content_row False ex_req_alice ex_alice ex_post 0], nextId := 1\<rparr>"

text \<open>A run in which the insertion of the platform-fee record fails, and nothing else.\<close>

definition ex_fee_fault :: faults where
  "ex_fee_fault = (\<lambda>op. op = OpInsertPlatformFee)"

text \<open>The store after Dave's payment went through.\<close>

definition ex_store_dave :: store where
  "ex_store_dave = snd (pay no_faults False ex_req_dave ex_store)"

text \<open>
  A post with three investor slots and unlocked comments, five users, and the three
  buyouts that fill the pool; then a regular payment of 1 by Dave, and Dave asking for a
  buyout.
\<close>

definition ex_erin :: user where
  "ex_erin = \<lparr>user_id = ''u4'', walletAddress = ''0xE4'', username = ''erin''\<rparr>"

definition ex_req_erin :: pay_request where
  "ex_req_erin = ex_req_alice\<lparr>wallet := Some ''0xE4''\<rparr>"

definition ex_pool_post :: post where
  "ex_pool_post = ex_post\<lparr>maxInvestors := 3, commentsLocked := False\<rparr>"

definition ex_pool_start :: store where
  "ex_pool_start =
     ex_store\<lparr>users := [ex_creator, ex_alice, ex_bob, ex_dave, ex_erin], posts := [ex_pool_post]\<rparr>"

definition ex_buyouts :: "(faults \<times> pay_request) list" where
  "ex_buyouts = [(no_faults, ex_req_alice), (no_faults, ex_req_bob), (no_faults, ex_req_erin)]"

definition ex_pool_store :: store where
  "ex_pool_store = snd (pay_all False ex_buyouts ex_pool_start)"

definition ex_req_small :: pay_request where
  "ex_req_small = ex_req_dave\<lparr>amount := 1\<rparr>"

definition ex_req_late_buyout :: pay_request where
  "ex_req_late_buyout = ex_req_dave\<lparr>isBuyout := True\<rparr>"

definition ex_store_small :: store where
  "ex_store_small = snd (pay no_faults False ex_req_small ex_pool_store)"

section \<open>Arithmetic of amounts\<close>

lemma floor_rat_numeral [simp]:
  "\<lfloor>numeral a / numeral b :: rat\<rfloor> = numeral a div numeral b"
  using floor_divide_of_int_eq [of "numeral a" "numeral b", where ?'a = rat] by simp

section \<open>The ledger's question: has this user paid?\<close>

text \<open>
  Claim C7, as the specification states it, fails on a free post asked about comment
  access: \<open>hasUserPaid\<close> answers true for a free post whatever the payment type, with
  no payment record at all.
\<close>

theorem hasUserPaid_free_comment_counterexample:
  "hasUserPaid ex_free_store ''u1'' ''p1'' Comment
   \<noteq> spec_hasPaid ex_free_store ''u1'' ''p1'' Comment"
  by (simp add: hasUserPaid_def spec_hasPaid_def ex_free_store_def ex_store_def ex_post_def
      getPost_def)

text \<open>
  Claim C7, amended: \<open>hasUserPaid\<close> is true when the post exists and is free, for either
  payment type; otherwise it is true exactly when a payment record of that user, post and
  payment type exists.
\<close>

theorem hasUserPaid_characterisation:
  "hasUserPaid s uid pid pt =
     ((\<exists>p. getPost s pid = Some p \<and> isFree p)
      \<or> (\<exists>pr \<in> set (payments s). matching_payment uid pid pt pr))"
  by (auto simp: hasUserPaid_def Let_def find_None_iff split: option.splits)

theorem hasUserPaid_characterisation_witness:
  "hasUserPaid ex_free_store ''u1'' ''p1'' Comment
   \<and> (\<exists>p. getPost ex_free_store ''p1'' = Some p \<and> isFree p)
   \<and> \<not> hasUserPaid ex_store ''u1'' ''p1'' Content"
  using hasUserPaid_characterisation [of ex_free_store "''u1''" "''p1''" Comment]
    hasUserPaid_characterisation [of ex_store "''u1''" "''p1''" Content]
  by (simp add: ex_free_store_def ex_store_def ex_post_def getPost_def)

section \<open>The settlement breakdown\<close>




section \<open>Viral detection\<close>

lemma posts_broadcast [simp]: "posts (broadcast m s) = posts s"
  by (simp add: broadcast_def)

lemma sent_markPostViral [simp]: "sent (markPostViral s now q) = sent s"
  by (simp add: markPostViral_def)

lemma ids_markPostViral [simp]:
  "map post_id (posts (markPostViral s now q)) = map post_id (posts s)"
  by (simp add: markPostViral_def comp_def)

lemma viral_events_broadcast [simp]:
  "viral_events pid (broadcast (ViralNotification q m) s) =
     viral_events pid s @ (if q = pid then [ViralNotification q m] else [])"
  by (simp add: viral_events_def broadcast_def)

lemma viral_events_markPostViral [simp]:
  "viral_events pid (markPostViral s now q) = viral_events pid s"
  by (simp add: viral_events_def)

lemma post_is_viral_broadcast [simp]: "post_is_viral (broadcast m s) pid = post_is_viral s pid"
  by (simp add: post_is_viral_def)

lemma bex_map_if:
  "(\<exists>p \<in> set (map (\<lambda>p. if Q p then g p else p) xs). R p) =
   (\<exists>p \<in> set xs. if Q p then R (g p) else R p)"
  by (induction xs) auto

lemma post_is_viral_markPostViral [simp]:
  "post_is_viral (markPostViral s now q) pid =
     (post_is_viral s pid \<or> (q = pid \<and> pid \<in> post_id ` set (posts s)))"
proof -
  have "(\<exists>p \<in> set (posts (markPostViral s now q)). post_id p = pid \<and> isViral p) =
        (\<exists>p \<in> set (posts s). if post_id p = q then post_id p = pid else post_id p = pid \<and> isViral p)"
    by (simp add: markPostViral_def bex_map_if del: set_map)
  also have "\<dots> = ((\<exists>p \<in> set (posts s). post_id p = pid \<and> isViral p)
                    \<or> (q = pid \<and> pid \<in> post_id ` set (posts s)))"
    by (auto split: if_splits)
  finally show ?thesis unfolding post_is_viral_def .
qed

lemma sweep_loop_ids [simp]:
  "map post_id (posts (sweep_loop f now ps s)) = map post_id (posts s)"
  by (induction f now ps s rule: sweep_loop.induct) (auto simp: Let_def split: option.splits)

lemma sweep_loop_keeps_viral:
  "post_is_viral s pid \<Longrightarrow> post_is_viral (sweep_loop f now ps s) pid"
  by (induction f now ps s rule: sweep_loop.induct) (auto simp: Let_def split: option.splits)

lemma sweep_loop_no_event:
  "\<forall>(p, c) \<in> set ps. post_id p = pid \<longrightarrow> isViral p \<Longrightarrow>
   viral_events pid (sweep_loop f now ps s) = viral_events pid s"
  by (induction f now ps s rule: sweep_loop.induct) (auto simp: Let_def split: option.splits)

lemma sweep_loop_event_bound:
  "distinct (map (post_id \<circ> fst) ps) \<Longrightarrow>
   length (viral_events pid (sweep_loop f now ps s)) \<le> length (viral_events pid s) + 1"
proof (induction f now ps s rule: sweep_loop.induct)
  case (1 f now s)
  then show ?case by simp
next
  case (2 f now p c rest s)
  have rest_free: "post_id p = pid \<Longrightarrow> \<forall>(q, d) \<in> set rest. post_id q = pid \<longrightarrow> isViral q"
    using "2.prems" by (auto simp: image_iff)
  show ?case
  proof (cases "post_id p = pid")
    case True
    then show ?thesis
      using sweep_loop_no_event [OF rest_free [OF True]]
      by (auto simp: Let_def split: option.splits)
  next
    case False
    then show ?thesis
      using "2.IH" "2.prems" by (auto simp: Let_def split: option.splits)
  qed
qed

lemma sweep_loop_event_viral:
  "\<forall>(p, c) \<in> set ps. post_id p \<in> set (map post_id (posts s)) \<Longrightarrow>
   viral_events pid (sweep_loop f now ps s) \<noteq> viral_events pid s \<Longrightarrow>
   post_is_viral (sweep_loop f now ps s) pid"
proof (induction f now ps s rule: sweep_loop.induct)
  case (1 f now s)
  then show ?case by simp
next
  case (2 f now p c rest s)
  show ?case
  proof (cases "isViral p \<or> \<not> VIRAL_UPVOTE_THRESHOLD \<le> upvoteCount p")
    case True
    have res: "sweep_loop f now ((p, c) # rest) s = sweep_loop f now rest s"
      using True by auto
    have ids: "\<forall>(q, d) \<in> set rest. post_id q \<in> set (map post_id (posts s))"
      using "2.prems"(1) by simp
    have ev: "viral_events pid (sweep_loop f now rest s) \<noteq> viral_events pid s"
      using "2.prems"(2) unfolding res .
    show ?thesis
    proof (cases "isViral p")
      case True
      then show ?thesis unfolding res using "2.IH"(1) ids ev by blast
    next
      case False
      then show ?thesis unfolding res using "2.IH"(3) True ids ev by blast
    qed
  next
    case False
    note hot = this
    show ?thesis
    proof (cases "f (OpMarkPostViral (post_id p))")
      case True
      then show ?thesis using hot "2.prems" by simp
    next
      case False
      note ok = this
      show ?thesis
      proof (cases c)
        case None
        then show ?thesis using hot ok "2.prems" by (simp add: Let_def)
      next
        case (Some u)
        define s2 where "s2 = broadcast (ViralNotification (post_id p) (title p @ '' by '' @ username u))
                                (markPostViral s now (post_id p))"
        have res: "sweep_loop f now ((p, c) # rest) s = sweep_loop f now rest s2"
          using hot ok Some by (simp add: Let_def s2_def)
        have ids: "\<forall>(q, d) \<in> set rest. post_id q \<in> set (map post_id (posts s2))"
          using "2.prems"(1) by (simp add: s2_def del: set_map)
        show ?thesis
        proof (cases "post_id p = pid")
          case True
          have "pid \<in> post_id ` set (posts s)" using "2.prems"(1) True by auto
          then have "post_is_viral s2 pid" using True by (simp add: s2_def)
          then show ?thesis unfolding res by (rule sweep_loop_keeps_viral)
        next
          case False
          then have same: "viral_events pid s2 = viral_events pid s" by (simp add: s2_def)
          have "viral_events pid (sweep_loop f now rest s2) \<noteq> viral_events pid s2"
            using "2.prems"(2) unfolding res same .
          then show ?thesis
            unfolding res using "2.IH"(2) hot ok Some ids
            by (simp add: s2_def Let_def del: set_map)
        qed
      qed
    qed
  qed
qed

lemma sweep_loop_promotes_only:
  "post_is_viral (sweep_loop f now ps s) pid \<Longrightarrow> \<not> post_is_viral s pid \<Longrightarrow>
   \<exists>(p, c) \<in> set ps. post_id p = pid \<and> \<not> isViral p \<and> VIRAL_UPVOTE_THRESHOLD \<le> upvoteCount p"
  by (induction f now ps s rule: sweep_loop.induct)
     (auto simp: Let_def split: option.splits if_splits)


lemma distinct_map_insort_key:
  "distinct (map g (insort_key k x xs)) = distinct (map g (x # xs))"
  by (induction xs) (auto simp: set_insort_key)

lemma distinct_map_sort_key:
  "distinct (map g (sort_key k xs)) = distinct (map g xs)"
  by (induction xs) (simp_all add: distinct_map_insort_key)

lemma snapshot_posts: "fst ` set (getAllPostsWithCreators s) = set (posts s)"
  by (force simp: getAllPostsWithCreators_def)

lemma snapshot_ids:
  "distinct (map (post_id \<circ> fst) (getAllPostsWithCreators s)) = distinct (map post_id (posts s))"
proof -
  have "map (post_id \<circ> fst) (getAllPostsWithCreators s) =
        rev (map post_id (sort_key createdAt (posts s)))"
    by (simp add: getAllPostsWithCreators_def comp_def rev_map)
  then show ?thesis by (simp add: distinct_map_sort_key)
qed

lemma viral_detection_ids [simp]:
  "map post_id (posts (viral_detection f now s)) = map post_id (posts s)"
  by (simp add: viral_detection_def)

lemma viral_detection_keeps_viral:
  "post_is_viral s pid \<Longrightarrow> post_is_viral (viral_detection f now s) pid"
  by (simp add: viral_detection_def sweep_loop_keeps_viral)

lemma viral_detection_no_event:
  assumes "distinct (map post_id (posts s))" and "post_is_viral s pid"
  shows "viral_events pid (viral_detection f now s) = viral_events pid s"
proof -
  have "\<forall>(p, c) \<in> set (getAllPostsWithCreators s). post_id p = pid \<longrightarrow> isViral p"
  proof (clarify)
    fix p c assume "(p, c) \<in> set (getAllPostsWithCreators s)" and "pid = post_id p"
    then have p: "p \<in> set (posts s)" using snapshot_posts [of s] by force
    obtain q where q: "q \<in> set (posts s)" "post_id q = pid" "isViral q"
      using assms(2) by (auto simp: post_is_viral_def)
    have "inj_on post_id (set (posts s))" using assms(1) by (simp add: distinct_map)
    then have "p = q" using p q \<open>pid = post_id p\<close> by (auto dest: inj_onD)
    then show "isViral p" using q by simp
  qed
  then show ?thesis by (simp add: viral_detection_def sweep_loop_no_event)
qed

lemma viral_detection_event_bound:
  "distinct (map post_id (posts s)) \<Longrightarrow>
   length (viral_events pid (viral_detection f now s)) \<le> length (viral_events pid s) + 1"
  using sweep_loop_event_bound [of "getAllPostsWithCreators s" pid f now s]
  by (simp add: viral_detection_def snapshot_ids)

lemma viral_detection_event_viral:
  "viral_events pid (viral_detection f now s) \<noteq> viral_events pid s \<Longrightarrow>
   post_is_viral (viral_detection f now s) pid"
proof -
  assume a: "viral_events pid (viral_detection f now s) \<noteq> viral_events pid s"
  have "\<forall>(p, c) \<in> set (getAllPostsWithCreators s). post_id p \<in> set (map post_id (posts s))"
    using snapshot_posts [of s] by force
  then show ?thesis
    using a sweep_loop_event_viral [of "getAllPostsWithCreators s" s pid f now]
    by (auto simp: viral_detection_def split: if_splits)
qed

lemma viral_detection_promotes_only:
  assumes "post_is_viral (viral_detection f now s) pid" and "\<not> post_is_viral s pid"
  shows "\<exists>p \<in> set (posts s). post_id p = pid \<and> \<not> isViral p \<and> 10 \<le> upvoteCount p"
proof -
  have "post_is_viral (sweep_loop f now (getAllPostsWithCreators s) s) pid"
    using assms by (auto simp: viral_detection_def split: if_splits)
  from sweep_loop_promotes_only [OF this assms(2)]
  obtain p c where "(p, c) \<in> set (getAllPostsWithCreators s)" "post_id p = pid"
    "\<not> isViral p" "VIRAL_UPVOTE_THRESHOLD \<le> upvoteCount p" by auto
  moreover then have "p \<in> set (posts s)" using snapshot_posts [of s] by force
  ultimately show ?thesis by (auto simp: VIRAL_UPVOTE_THRESHOLD_def)
qed

lemma viral_runs_ids [simp]:
  "map post_id (posts (viral_runs rs s)) = map post_id (posts s)"
  by (induction rs s rule: viral_runs.induct) simp_all

lemma viral_runs_keep:
  "distinct (map post_id (posts s)) \<Longrightarrow> post_is_viral s pid \<Longrightarrow>
   post_is_viral (viral_runs rs s) pid \<and> viral_events pid (viral_runs rs s) = viral_events pid s"
proof (induction rs s rule: viral_runs.induct)
  case (1 s)
  then show ?case by simp
next
  case (2 f now rs s)
  have "distinct (map post_id (posts (viral_detection f now s)))" using "2.prems"(1) by simp
  moreover have "post_is_viral (viral_detection f now s) pid"
    using "2.prems"(2) by (rule viral_detection_keeps_viral)
  ultimately show ?case
    using "2.IH" viral_detection_no_event [OF "2.prems"] by simp
qed

lemma viral_runs_event_bound:
  "distinct (map post_id (posts s)) \<Longrightarrow>
   length (viral_events pid (viral_runs rs s)) \<le> length (viral_events pid s) + 1"
proof (induction rs s rule: viral_runs.induct)
  case (1 s)
  then show ?case by simp
next
  case (2 f now rs s)
  let ?s1 = "viral_detection f now s"
  have d1: "distinct (map post_id (posts ?s1))" using "2.prems" by simp
  show ?case
  proof (cases "viral_events pid ?s1 = viral_events pid s")
    case True
    then show ?thesis using "2.IH" [OF d1] by simp
  next
    case False
    then have "post_is_viral ?s1 pid" by (rule viral_detection_event_viral)
    then have "viral_events pid (viral_runs rs ?s1) = viral_events pid ?s1"
      using viral_runs_keep [OF d1] by blast
    then show ?thesis using viral_detection_event_bound [OF "2.prems", of pid f now] by simp
  qed
qed

text \<open>
  Claim C9. Post identifiers are the primary key of the table. Over any sequence of runs
  of the job, whatever fails in them: a post that is viral stays viral and gets no
  notification; no post gets more than one notification; and a run makes a post viral
  only if the post was not viral and had at least 10 upvotes.
\<close>

theorem viral_monotone:
  assumes "distinct (map post_id (posts s))"
  shows "(post_is_viral s pid \<longrightarrow>
            post_is_viral (viral_runs rs s) pid
            \<and> viral_events pid (viral_runs rs s) = viral_events pid s)
       \<and> length (viral_events pid (viral_runs rs s)) \<le> length (viral_events pid s) + 1
       \<and> (\<not> post_is_viral s pid \<and> post_is_viral (viral_detection f now s) pid \<longrightarrow>
            (\<exists>p \<in> set (posts s). post_id p = pid \<and> \<not> isViral p \<and> 10 \<le> upvoteCount p))"
  using viral_runs_keep [OF assms] viral_runs_event_bound [OF assms]
    viral_detection_promotes_only by blast

theorem viral_monotone_witness:
  "distinct (map post_id (posts ex_viral_store))
   \<and> post_is_viral ex_viral_store ''p1''
   \<and> post_is_viral (viral_runs [(no_faults, 7), (no_faults, 8)] ex_viral_store) ''p1''
   \<and> viral_events ''p1'' (viral_runs [(no_faults, 7), (no_faults, 8)] ex_viral_store) = []
   \<and> \<not> post_is_viral ex_viral_store ''p2''
   \<and> post_is_viral (viral_detection no_faults 7 ex_viral_store) ''p2''
   \<and> length (viral_events ''p2'' (viral_runs [(no_faults, 7), (no_faults, 8)] ex_viral_store)) \<le> 1"
proof -
  have d: "distinct (map post_id (posts ex_viral_store))"
    by (simp add: ex_viral_store_def ex_store_def ex_post_def)
  have v1: "post_is_viral ex_viral_store ''p1''"
    by (simp add: post_is_viral_def ex_viral_store_def ex_store_def ex_post_def)
  have v2: "\<not> post_is_viral ex_viral_store ''p2''"
    by (simp add: post_is_viral_def ex_viral_store_def ex_store_def ex_post_def)
  have e1: "viral_events ''p1'' ex_viral_store = []" "viral_events ''p2'' ex_viral_store = []"
    by (simp_all add: viral_events_def ex_viral_store_def ex_store_def)
  have run: "post_is_viral (viral_detection no_faults 7 ex_viral_store) ''p2''"
    by (simp add: viral_detection_def no_faults_def getAllPostsWithCreators_def
        ex_viral_store_def ex_store_def ex_post_def getUserById_def ex_creator_def
        VIRAL_UPVOTE_THRESHOLD_def Let_def)
  show ?thesis
    using d v1 v2 e1 run
      viral_monotone [OF d, of "''p1''" "[(no_faults, 7), (no_faults, 8)]"]
      viral_monotone [OF d, of "''p2''" "[(no_faults, 7), (no_faults, 8)]"]
    by simp
qed

section \<open>Serving media\<close>

lemma decrypt_and_send_cases:
  "decrypt_and_send c p = Media_redirect (blurredThumbnailPath p)
   \<or> (\<exists>plain. decrypt_and_send c p =
         Media_send (if mediaType p = ''image'' then ''image/jpeg'' else ''video/mp4'') plain)"
  by (simp add: decrypt_and_send_def Let_def split: option.splits)

text \<open>
  Claim C6. For a post that exists, with the two database reads of the route answering:
  the route serves what \<open>decrypt_and_send\<close> gives when the post is free, when the
  viewer is the creator, or when the viewer has a content payment, and redirects to the
  blurred thumbnail otherwise; \<open>decrypt_and_send\<close> sends the decrypted bytes when the
  file is read and both decryptions succeed, and redirects to the blurred thumbnail when
  the read or a decryption fails; the answer is never the 500 of the route.
\<close>

theorem get_media_resolve:
  assumes "getPost s pid = Some p" and "\<not> f OpGetPost" and "\<not> f OpHasUserPaid"
  shows "get_media f c s w pid =
          (if isFree p
              \<or> (\<exists>u. getCurrentUser f s w = Some u
                     \<and> (user_id u = creatorId p
                         \<or> (\<exists>pr \<in> set (payments s). matching_payment (user_id u) pid Content pr)))
           then decrypt_and_send c p
           else Media_redirect (blurredThumbnailPath p))
       \<and> (\<forall>buf key plain.
            readEncryptedFile c (encryptedMediaPath p) = Some buf
            \<and> decryptContentKey c (encryptedKey p) (iv p) (authTag p) = Some key
            \<and> decryptBuffer c (take (length buf - 16 - 12) (drop 12 buf)) key (take 12 buf)
                  (drop (length buf - 16) buf) = Some plain
            \<longrightarrow> decrypt_and_send c p =
                  Media_send (if mediaType p = ''image'' then ''image/jpeg'' else ''video/mp4'') plain)
       \<and> (readEncryptedFile c (encryptedMediaPath p) = None
            \<or> decryptContentKey c (encryptedKey p) (iv p) (authTag p) = None
            \<or> (\<exists>buf key. readEncryptedFile c (encryptedMediaPath p) = Some buf
                  \<and> decryptContentKey c (encryptedKey p) (iv p) (authTag p) = Some key
                  \<and> decryptBuffer c (take (length buf - 16 - 12) (drop 12 buf)) key (take 12 buf)
                       (drop (length buf - 16) buf) = None)
            \<longrightarrow> decrypt_and_send c p = Media_redirect (blurredThumbnailPath p))
       \<and> get_media f c s w pid \<noteq> Media_error"
proof -
  have paid: "\<And>u. \<not> isFree p \<Longrightarrow>
      hasUserPaid s u pid Content = (\<exists>pr \<in> set (payments s). matching_payment u pid Content pr)"
    using assms(1) by (auto simp: hasUserPaid_def Let_def find_None_iff)
  have a: "get_media f c s w pid =
          (if isFree p
              \<or> (\<exists>u. getCurrentUser f s w = Some u
                     \<and> (user_id u = creatorId p
                         \<or> (\<exists>pr \<in> set (payments s). matching_payment (user_id u) pid Content pr)))
           then decrypt_and_send c p
           else Media_redirect (blurredThumbnailPath p))"
    using assms paid by (auto simp: get_media_def Let_def split: option.splits)
  have b: "decrypt_and_send c p \<noteq> Media_error"
    using decrypt_and_send_cases [of c p] by auto
  show ?thesis
    apply (intro conjI)
       apply (rule a)
      apply (simp add: decrypt_and_send_def Let_def)
     apply (auto simp: decrypt_and_send_def Let_def split: option.splits)[1]
    using a b apply (simp split: if_splits)
    done
qed



theorem get_media_resolve_witness:
  "getPost ex_paid_store ''p1'' = Some ex_post
   \<and> \<not> no_faults OpGetPost \<and> \<not> no_faults OpHasUserPaid
   \<and> get_media no_faults ex_crypto ex_paid_store (Some ''0xA1'') ''p1''
       = Media_send ''image/jpeg'' [1, 2, 3]
   \<and> get_media no_faults ex_crypto ex_paid_store (Some ''0xC0'') ''p1''
       = Media_send ''image/jpeg'' [1, 2, 3]
   \<and> get_media no_faults ex_crypto ex_paid_store (Some ''0xB2'') ''p1''
       = Media_redirect ''/uploads/thumbnails/a.jpg''
   \<and> get_media no_faults ex_crypto ex_paid_store None ''p1''
       = Media_redirect ''/uploads/thumbnails/a.jpg''
   \<and> get_media no_faults ex_crypto_corrupt ex_paid_store (Some ''0xA1'') ''p1''
       = Media_redirect ''/uploads/thumbnails/a.jpg''"
proof -
  have g: "getPost ex_paid_store ''p1'' = Some ex_post"
    by (simp add: getPost_def ex_paid_store_def ex_store_def ex_post_def)
  have n: "\<not> no_faults OpGetPost" "\<not> no_faults OpHasUserPaid"
    by (simp_all add: no_faults_def)
  note r = get_media_resolve [OF g n]
  show ?thesis
    using g n r [of ex_crypto "Some ''0xA1''"] r [of ex_crypto "Some ''0xC0''"]
      r [of ex_crypto "Some ''0xB2''"] r [of ex_crypto None]
      r [of ex_crypto_corrupt "Some ''0xA1''"]
    by (simp add: get_media_def getCurrentUser_def getUserByWalletAddress_def hasUserPaid_def
        matching_payment_def content_row_def decrypt_and_send_def decryptContentKey_def
        decryptBuffer_def ex_crypto_def ex_crypto_corrupt_def ex_paid_store_def ex_store_def
        ex_post_def ex_req_alice_def ex_alice_def ex_bob_def ex_creator_def ex_dave_def
        no_faults_def getPost_def Let_def)
qed

section \<open>What each step of the payment route changes\<close>

lemma incrementViewCount_frame [simp]:
  "users (incrementViewCount s pid) = users s"
  "payments (incrementViewCount s pid) = payments s"
  "platformFees (incrementViewCount s pid) = platformFees s"
  "investors (incrementViewCount s pid) = investors s"
  "nextId (incrementViewCount s pid) = nextId s"
  "sent (incrementViewCount s pid) = sent s"
  "settled (incrementViewCount s pid) = settled s"
  by (simp_all add: incrementViewCount_def)

lemma find_map_same_key:
  "(\<And>x. k (g x) = k x) \<Longrightarrow> find (\<lambda>x. k x = a) (map g xs) = map_option g (find (\<lambda>x. k x = a) xs)"
  by (induction xs) auto

lemma getPost_incrementViewCount:
  "getPost (incrementViewCount s q) pid =
     map_option (\<lambda>p. if post_id p = q then p\<lparr>viewCount := viewCount p + 1\<rparr> else p) (getPost s pid)"
  by (simp add: getPost_def incrementViewCount_def find_map_same_key)

lemma getPost_id: "getPost s pid = Some p \<Longrightarrow> post_id p = pid"
  by (auto simp: getPost_def find_Some_iff)

lemma hasUserPaid_incrementViewCount [simp]:
  "hasUserPaid (incrementViewCount s q) uid pid pt = hasUserPaid s uid pid pt"
  by (cases "getPost s pid") (simp_all add: hasUserPaid_def getPost_incrementViewCount Let_def)

lemma investorsOfPost_incrementViewCount [simp]:
  "investorsOfPost (incrementViewCount s q) pid = investorsOfPost s pid"
  by (simp add: investorsOfPost_def)

lemma createPayment_frame:
  assumes "createPayment a b ins s = (s', r)"
  shows "users s' = users s" "posts s' = posts s" "platformFees s' = platformFees s"
    "investors s' = investors s" "sent s' = sent s" "settled s' = settled s"
    "nextId s \<le> nextId s'"
  using assms by (auto simp: createPayment_def Let_def split: if_splits)

lemma createPayment_Some:
  assumes "createPayment a b ins s = (s', Some row)"
  shows "row = ins\<lparr>pay_id := nextId s\<rparr>" "payments s' = payments s @ [row]"
    "nextId s' = nextId s + 1" "\<not> a" "\<not> b"
    "\<not> (\<exists>pr \<in> set (payments s). matching_payment (pay_userId ins) (pay_postId ins) (paymentType ins) pr)"
  using assms by (auto simp: createPayment_def Let_def split: if_splits)

lemma createPayment_None:
  assumes "createPayment a b ins s = (s', None)"
  shows "payments s' = payments s \<or> payments s' = payments s @ [ins\<lparr>pay_id := nextId s\<rparr>]"
  using assms by (auto simp: createPayment_def Let_def split: if_splits)

lemma insertInvestor_frame:
  assumes "insertInvestor ins s = Some s'"
  shows "users s' = users s \<and> posts s' = posts s \<and> payments s' = payments s
    \<and> platformFees s' = platformFees s \<and> sent s' = sent s \<and> settled s' = settled s
    \<and> investors s' = investors s @ [ins\<lparr>inv_id := nextId s\<rparr>] \<and> nextId s' = nextId s + 1"
  using assms by (auto simp: insertInvestor_def split: if_splits)

lemma setTotalEarnings_frame [simp]:
  "users (setTotalEarnings r v s) = users s"
  "posts (setTotalEarnings r v s) = posts s"
  "payments (setTotalEarnings r v s) = payments s"
  "platformFees (setTotalEarnings r v s) = platformFees s"
  "nextId (setTotalEarnings r v s) = nextId s"
  "sent (setTotalEarnings r v s) = sent s"
  "settled (setTotalEarnings r v s) = settled s"
  by (simp_all add: setTotalEarnings_def)

lemma distribute_frame [simp]:
  "users (fst (distribute f e xs s)) = users s"
  "posts (fst (distribute f e xs s)) = posts s"
  "payments (fst (distribute f e xs s)) = payments s"
  "platformFees (fst (distribute f e xs s)) = platformFees s"
  "nextId (fst (distribute f e xs s)) = nextId s"
  "sent (fst (distribute f e xs s)) = sent s"
  "settled (fst (distribute f e xs s)) = settled s"
  by (induction f e xs s rule: distribute.induct; simp)+

lemma settle_frame [simp]:
  "users (settle f ps s) = users s"
  "posts (settle f ps s) = posts s"
  "payments (settle f ps s) = payments s"
  "platformFees (settle f ps s) = platformFees s"
  "investors (settle f ps s) = investors s"
  "nextId (settle f ps s) = nextId s"
  "sent (settle f ps s) = sent s"
  by (simp_all add: settle_def)

lemma broadcast_frame [simp]:
  "users (broadcast m s) = users s"
  "payments (broadcast m s) = payments s"
  "platformFees (broadcast m s) = platformFees s"
  "investors (broadcast m s) = investors s"
  "nextId (broadcast m s) = nextId s"
  "settled (broadcast m s) = settled s"
  by (simp_all add: broadcast_def)

lemma foldl_broadcast_frame:
  "users (foldl (\<lambda>st i. broadcast (g i) st) s xs) = users s
   \<and> posts (foldl (\<lambda>st i. broadcast (g i) st) s xs) = posts s
   \<and> payments (foldl (\<lambda>st i. broadcast (g i) st) s xs) = payments s
   \<and> platformFees (foldl (\<lambda>st i. broadcast (g i) st) s xs) = platformFees s
   \<and> investors (foldl (\<lambda>st i. broadcast (g i) st) s xs) = investors s
   \<and> nextId (foldl (\<lambda>st i. broadcast (g i) st) s xs) = nextId s
   \<and> settled (foldl (\<lambda>st i. broadcast (g i) st) s xs) = settled s"
  by (induction xs arbitrary: s) simp_all

lemma broadcast_updates_frame [simp]:
  "users (broadcast_updates pid s) = users s"
  "posts (broadcast_updates pid s) = posts s"
  "payments (broadcast_updates pid s) = payments s"
  "platformFees (broadcast_updates pid s) = platformFees s"
  "investors (broadcast_updates pid s) = investors s"
  "nextId (broadcast_updates pid s) = nextId s"
  "settled (broadcast_updates pid s) = settled s"
  by (simp_all add: broadcast_updates_def Let_def foldl_broadcast_frame)

lemma allocate_frame:
  assumes "allocate f req usr p s = (s', ok)"
  shows "users s' = users s" "posts s' = posts s" "payments s' = payments s"
    "platformFees s' = platformFees s" "sent s' = sent s"
proof -
  have d: "\<And>e xs t b. distribute f e xs s = (t, b) \<Longrightarrow>
     users t = users s \<and> posts t = posts s \<and> payments t = payments s
     \<and> platformFees t = platformFees s \<and> sent t = sent s"
    by (metis distribute_frame fst_conv)
  show "users s' = users s" "posts s' = posts s" "payments s' = payments s"
    "platformFees s' = platformFees s" "sent s' = sent s"
    using assms
    by (auto simp: allocate_def Let_def split: if_splits option.splits prod.splits bool.splits
        dest!: insertInvestor_frame d)
qed


lemma finish_payment_frame:
  assumes "finish_payment f req usr p s = (r, s')"
  shows "users s' = users s \<and> posts s' = posts s \<and> platformFees s' = platformFees s
    \<and> investors s' = investors s \<and> settled s' = settled s
    \<and> (payments s' = payments s \<or> payments s' = payments s @ [comment_row req usr p (nextId s)])"
  using assms
  by (auto simp: finish_payment_def Let_def comment_row_def createPayment_def
      split: if_splits option.splits prod.splits)

lemma finish_payment_success:
  assumes "finish_payment f req usr p s = (Success b, s')"
  shows "\<not> b \<and> payments s' = payments s @ (if commentsLocked p then [comment_row req usr p (nextId s)] else [])"
  using assms
  by (auto simp: finish_payment_def Let_def comment_row_def createPayment_def
      split: if_splits option.splits prod.splits)

lemma finish_payment_response:
  "finish_payment f req usr p s = (r, s') \<Longrightarrow> r = Server_error \<or> r = Success False"
  by (auto simp: finish_payment_def Let_def split: if_splits option.splits prod.splits)

lemma record_payment_response:
  "record_payment f pr req usr p s = (r, s') \<Longrightarrow> r = Server_error \<or> r = Success False"
  by (auto simp: record_payment_def Let_def
      split: if_splits option.splits prod.splits bool.splits dest: finish_payment_response)

text \<open>inversion of a successful unit of work\<close>

lemma record_payment_success:
  assumes "record_payment f pr req usr p s = (Success b, s')"
  shows "\<exists>s1 s2 s3. createPayment (f OpInsertPayment) (f OpCreatePaymentLookup)
                        (content_row pr req usr p 0) s = (s1, Some (content_row pr req usr p (nextId s)))
           \<and> s2 = (if isFree p then s1
                    else s1\<lparr>platformFees := platformFees s1 @
                              [\<lparr>fee_paymentId = nextId s, fee_postId = post_id p,
                                fee_amount = PLATFORM_FEE_USDC, fee_cryptocurrency = ''USDC'',
                                fee_status = ''completed''\<rparr>]\<rparr>)
           \<and> (isFree p \<or> \<not> f OpInsertPlatformFee)
           \<and> allocate f req usr p s2 = (s3, True)
           \<and> finish_payment f req usr p s3 = (Success b, s')"
proof -
  obtain s1 row where c: "createPayment (f OpInsertPayment) (f OpCreatePaymentLookup)
                        (content_row pr req usr p 0) s = (s1, Some row)"
    using assms by (auto simp: record_payment_def content_row_def split: option.splits prod.splits)
  have row: "row = content_row pr req usr p (nextId s)"
    using createPayment_Some(1) [OF c] by (simp add: content_row_def)
  show ?thesis
    using assms c row
    by (auto simp: record_payment_def content_row_def Let_def
        split: if_splits option.splits prod.splits bool.splits)
qed

section \<open>The payment route\<close>

lemma hasUserPaid_iff:
  "hasUserPaid s uid pid pt =
     ((\<exists>p. getPost s pid = Some p \<and> isFree p)
      \<or> (\<exists>pr \<in> set (payments s). matching_payment uid pid pt pr))"
  by (auto simp: hasUserPaid_def Let_def find_None_iff split: option.splits)

lemma getInvestorCount_incrementViewCount [simp]:
  "getInvestorCount (incrementViewCount s q) pid = getInvestorCount s pid"
  by (simp add: getInvestorCount_def)

lemma record_payment_frame:
  assumes "record_payment f pr req usr p s = (r, s')"
  shows "users s' = users s \<and> posts s' = posts s"
proof -
  have c: "\<And>a b ins t x. createPayment a b ins s = (t, x) \<Longrightarrow> users t = users s \<and> posts t = posts s"
    by (simp add: createPayment_frame)
  have al: "\<And>t t' ok. allocate f req usr p t = (t', ok) \<Longrightarrow> users t' = users t \<and> posts t' = posts t"
    by (simp add: allocate_frame)
  have fi: "\<And>t t' r. finish_payment f req usr p t = (r, t') \<Longrightarrow> users t' = users t \<and> posts t' = posts t"
    using finish_payment_frame by blast
  show ?thesis
    using assms
    by (auto simp: record_payment_def Let_def
        split: if_splits option.splits prod.splits bool.splits dest!: c al fi)
qed

lemma pay_cases:
  assumes "pay f pr req s = (r, s')"
  shows "(r \<noteq> Success False
           \<and> s' = (if r = Unauthorized \<or> r = Post_not_found \<or> f OpGetPost \<or> f OpIncrementViewCount
                   then s else incrementViewCount s (req_postId req)))
       \<or> (\<exists>usr p. getCurrentUser f s (wallet req) = Some usr \<and> \<not> f OpGetPost
             \<and> getPost s (req_postId req) = Some p
             \<and> (\<exists>c. cryptocurrency req = Some c \<and> c \<in> set (split_comma (acceptedCryptos p)))
             \<and> \<not> f OpHasUserPaid \<and> \<not> hasUserPaid s (user_id usr) (post_id p) Content
             \<and> \<not> network_rejected pr req \<and> \<not> f OpCountInvestors
             \<and> \<not> (isBuyout req \<and> maxInvestorSlots p \<le> int (getInvestorCount s (post_id p)))
             \<and> record_payment f pr req usr p
                  (if f OpIncrementViewCount then s else incrementViewCount s (req_postId req))
                = (r, s'))"
  using assms
  by (auto simp: pay_def Let_def split: option.splits if_splits)


lemma pay_success:
  assumes "pay f pr req s = (Success False, s')"
  shows "\<exists>usr p. getCurrentUser f s (wallet req) = Some usr \<and> \<not> f OpGetPost
             \<and> getPost s (req_postId req) = Some p
             \<and> (\<exists>c. cryptocurrency req = Some c \<and> c \<in> set (split_comma (acceptedCryptos p)))
             \<and> \<not> f OpHasUserPaid \<and> \<not> hasUserPaid s (user_id usr) (post_id p) Content
             \<and> \<not> network_rejected pr req \<and> \<not> f OpCountInvestors
             \<and> \<not> (isBuyout req \<and> maxInvestorSlots p \<le> int (getInvestorCount s (post_id p)))
             \<and> record_payment f pr req usr p
                  (if f OpIncrementViewCount then s else incrementViewCount s (req_postId req))
                = (Success False, s')"
  using pay_cases [OF assms] by simp

lemma record_payment_success_payments:
  assumes "record_payment f pr req usr p s = (Success b, s')"
  shows "\<exists>j. payments s' = payments s @ content_row pr req usr p (nextId s)
                    # (if commentsLocked p then [comment_row req usr p j] else [])"
proof -
  from record_payment_success [OF assms] obtain s1 s2 s3 where
    c: "createPayment (f OpInsertPayment) (f OpCreatePaymentLookup)
          (content_row pr req usr p 0) s = (s1, Some (content_row pr req usr p (nextId s)))"
    and s2: "s2 = (if isFree p then s1
                    else s1\<lparr>platformFees := platformFees s1 @
                              [\<lparr>fee_paymentId = nextId s, fee_postId = post_id p,
                                fee_amount = PLATFORM_FEE_USDC, fee_cryptocurrency = ''USDC'',
                                fee_status = ''completed''\<rparr>]\<rparr>)"
    and a: "allocate f req usr p s2 = (s3, True)"
    and fi: "finish_payment f req usr p s3 = (Success b, s')"
    by blast
  have "payments s1 = payments s @ [content_row pr req usr p (nextId s)]"
    using createPayment_Some(2) [OF c] .
  moreover have "payments s2 = payments s1" using s2 by simp
  moreover have "payments s3 = payments s2" using allocate_frame(3) [OF a] .
  moreover have "payments s' = payments s3 @ (if commentsLocked p then [comment_row req usr p (nextId s3)] else [])"
    using finish_payment_success [OF fi] by simp
  ultimately show ?thesis by auto
qed

lemma pay_already_paid:
  assumes "getCurrentUser f s (wallet req) = Some usr" and "\<not> f OpGetPost"
    and "getPost s (req_postId req) = Some p"
    and "cryptocurrency req = Some c" and "c \<in> set (split_comma (acceptedCryptos p))"
    and "\<not> f OpHasUserPaid" and "hasUserPaid s (user_id usr) (req_postId req) Content"
  shows "pay f pr req s =
           (Success True, if f OpIncrementViewCount then s else incrementViewCount s (req_postId req))"
  using assms getPost_id [OF assms(3)]
  by (simp add: pay_def Let_def)

lemma getCurrentUser_cong:
  "users s' = users s \<Longrightarrow> getCurrentUser f s w = Some usr \<Longrightarrow> \<not> f' OpGetCurrentUser \<Longrightarrow>
   getCurrentUser f' s' w = Some usr"
  by (auto simp: getCurrentUser_def getUserByWalletAddress_def split: option.splits if_splits)

lemmas route_defs =
  pay_def getCurrentUser_def getUserByWalletAddress_def getUserById_def getPost_def
  incrementViewCount_def hasUserPaid_def matching_payment_def network_rejected_def
  validNetworks_def selectedNetwork_def or_default_def maxInvestorSlots_def
  getInvestorCount_def investorsOfPost_def record_payment_def createPayment_def
  content_row_def comment_row_def allocate_def existingInvestors_def totalPayments_def
  insertInvestor_def setTotalEarnings_def settle_def investorsWithWallets_def
  processPaymentWithSplits_def processEvmPayment_def processSolanaPayment_def
  calculateInvestorSplits_def failed_result_def toFixed6_def PLATFORM_FEE_USDC_def
  finish_payment_def broadcast_updates_def broadcast_def no_faults_def Let_def

lemmas example_defs =
  ex_store_def ex_free_store_def ex_paid_store_def ex_post_def ex_creator_def ex_alice_def
  ex_bob_def ex_dave_def ex_req_alice_def ex_req_bob_def ex_req_dave_def

lemma ex_dave_pays:
  "fst (pay no_faults False ex_req_dave ex_store) = Success False"
  "payments (snd (pay no_faults False ex_req_dave ex_store)) =
     [content_row False ex_req_dave ex_dave ex_post 0, comment_row ex_req_dave ex_dave ex_post 1]"
  by (simp_all add: route_defs example_defs)

lemma ex_fee_fails:
  "fst (pay ex_fee_fault False ex_req_dave ex_store) = Server_error"
  "payments (snd (pay ex_fee_fault False ex_req_dave ex_store)) =
     [content_row False ex_req_dave ex_dave ex_post 0]"
  "platformFees (snd (pay ex_fee_fault False ex_req_dave ex_store)) = []"
  by (simp_all add: route_defs example_defs ex_fee_fault_def)

lemma ex_free:
  "fst (pay no_faults False ex_req_alice ex_free_store) = Success True"
  "payments (snd (pay no_faults False ex_req_alice ex_free_store)) = []"
  "fst (pay no_faults False ex_req_alice (snd (pay no_faults False ex_req_alice ex_free_store))) = Success True"
  "payments (snd (pay no_faults False ex_req_alice (snd (pay no_faults False ex_req_alice ex_free_store)))) = []"
  by (simp_all add: route_defs example_defs)


text \<open>
  Claim C10. When the route answers a content payment with success and
  \<open>alreadyPaid: false\<close> on a post whose comments are locked, it has appended exactly two
  payment records to the ledger: the content payment of the payer for the post, and a
  comment payment of the same payer for the same post with amount 0.
\<close>

theorem content_payment_grants_comment_access:
  assumes "pay f isProduction req s = (Success False, s')"
    and "getCurrentUser f s (wallet req) = Some usr"
    and "getPost s (req_postId req) = Some p"
    and "commentsLocked p"
  shows "\<exists>c1 c2. payments s' = payments s @ [c1, c2]
           \<and> matching_payment (user_id usr) (req_postId req) Content c1
           \<and> matching_payment (user_id usr) (req_postId req) Comment c2
           \<and> pay_amount c2 = 0"
proof -
  from pay_success [OF assms(1)] assms(2,3)
  have r: "record_payment f isProduction req usr p
             (if f OpIncrementViewCount then s else incrementViewCount s (req_postId req))
           = (Success False, s')"
    by auto
  have pid: "post_id p = req_postId req" using assms(3) by (rule getPost_id)
  from record_payment_success_payments [OF r] assms(4) pid
  show ?thesis
    by (auto simp: matching_payment_def content_row_def comment_row_def)
qed


theorem content_payment_grants_comment_access_witness:
  "pay no_faults False ex_req_dave ex_store = (Success False, ex_store_dave)
   \<and> getCurrentUser no_faults ex_store (wallet ex_req_dave) = Some ex_dave
   \<and> getPost ex_store (req_postId ex_req_dave) = Some ex_post
   \<and> commentsLocked ex_post
   \<and> (\<exists>c1 c2. payments ex_store_dave = payments ex_store @ [c1, c2]
          \<and> matching_payment (user_id ex_dave) (req_postId ex_req_dave) Content c1
          \<and> matching_payment (user_id ex_dave) (req_postId ex_req_dave) Comment c2
          \<and> pay_amount c2 = 0)"
proof -
  have a: "pay no_faults False ex_req_dave ex_store = (Success False, ex_store_dave)"
    using ex_dave_pays(1) by (simp add: ex_store_dave_def prod_eq_iff)
  have b: "getCurrentUser no_faults ex_store (wallet ex_req_dave) = Some ex_dave"
    by (simp add: route_defs example_defs)
  have c: "getPost ex_store (req_postId ex_req_dave) = Some ex_post"
    by (simp add: route_defs example_defs)
  have d: "commentsLocked ex_post" by (simp add: ex_post_def)
  show ?thesis
    using a b c d content_payment_grants_comment_access [OF a b c d] by simp
qed










section \<open>Investor slots and revenue share\<close>

lemma find_key_distinct:
  "distinct (map k xs) \<Longrightarrow> x \<in> set xs \<Longrightarrow> find (\<lambda>y. k y = k x) xs = Some x"
  by (induction xs) (auto simp: image_iff)

lemma investors_setTotalEarnings:
  "investors (setTotalEarnings r v s) =
     map (\<lambda>i. if inv_id i = r then i\<lparr>totalEarnings := v\<rparr> else i) (investors s)"
  by (simp add: setTotalEarnings_def)

lemma distribute_all:
  "distribute f e xs s = (s', True) \<Longrightarrow> distinct (map inv_id xs) \<Longrightarrow>
   investors s' =
     map (\<lambda>i. case find (\<lambda>x. inv_id x = inv_id i) xs of
                 None \<Rightarrow> i
               | Some x \<Rightarrow> i\<lparr>totalEarnings := toFixed6 (totalEarnings x + e)\<rparr>) (investors s)"
proof (induction f e xs s rule: distribute.induct)
  case (1 f e s)
  then show ?case by (simp add: map_idI)
next
  case (2 f e x rest s)
  let ?s1 = "setTotalEarnings (inv_id x) (toFixed6 (totalEarnings x + e)) s"
  have ok: "\<not> f (OpUpdateInvestor (inv_id x))" and run: "distribute f e rest ?s1 = (s', True)"
    using "2.prems"(1) by (auto split: if_splits)
  have fresh: "find (\<lambda>y. inv_id y = inv_id x) rest = None"
    using "2.prems"(2) by (auto simp: find_None_iff image_iff)
  have "investors s' =
     map (\<lambda>i. case find (\<lambda>x. inv_id x = inv_id i) rest of
                 None \<Rightarrow> i
               | Some x \<Rightarrow> i\<lparr>totalEarnings := toFixed6 (totalEarnings x + e)\<rparr>) (investors ?s1)"
    using "2.IH" [OF ok run] "2.prems"(2) by simp
  then show ?case
    using fresh by (auto simp: investors_setTotalEarnings)
qed

lemma distribute_investors_shape:
  "map (\<lambda>i. i\<lparr>totalEarnings := 0\<rparr>) (investors (fst (distribute f e xs s)))
   = map (\<lambda>i. i\<lparr>totalEarnings := 0\<rparr>) (investors s)"
  by (induction f e xs s rule: distribute.induct) (simp_all add: investors_setTotalEarnings comp_def)

lemma set_existingInvestors [simp]:
  "set (existingInvestors s pid) = {i \<in> set (investors s). inv_postId i = pid}"
  by (auto simp: existingInvestors_def investorsOfPost_def)

lemma length_existingInvestors [simp]:
  "length (existingInvestors s pid) = length (investorsOfPost s pid)"
  by (simp add: existingInvestors_def)

lemma distinct_existingInvestors:
  "distinct (map inv_id (investors s)) \<Longrightarrow> distinct (map inv_id (existingInvestors s pid))"
  by (simp add: existingInvestors_def investorsOfPost_def distinct_map_sort_key distinct_map_filter)

lemma find_existing:
  assumes "distinct (map inv_id (investors s))" and "i \<in> set (investors s)"
  shows "find (\<lambda>x. inv_id x = inv_id i) (existingInvestors s pid)
         = (if inv_postId i = pid then Some i else None)"
proof (cases "inv_postId i = pid")
  case True
  then have "i \<in> set (existingInvestors s pid)" using assms(2) by simp
  then show ?thesis
    using find_key_distinct [OF distinct_existingInvestors [OF assms(1)], of i pid] True by simp
next
  case False
  have inj: "inj_on inv_id (set (investors s))" using assms(1) by (simp add: distinct_map)
  have "\<And>x. x \<in> set (existingInvestors s pid) \<Longrightarrow> inv_id x \<noteq> inv_id i"
  proof
    fix x assume x: "x \<in> set (existingInvestors s pid)" and e: "inv_id x = inv_id i"
    then have "x = i" using inj assms(2) by (auto dest: inj_onD)
    then show False using x False by simp
  qed
  then show ?thesis using False by (auto simp: find_None_iff)
qed

lemma allocate_distributes:
  assumes "allocate f req usr p s = (s', True)" and "\<not> isBuyout req"
    and "int (length (investorsOfPost s (post_id p))) = maxInvestorSlots p"
    and "maxInvestorSlots p < int (totalPayments s (post_id p))"
    and "0 < investorRevenueShare p"
    and "distinct (map inv_id (investors s))"
  shows "investors s' =
           map (\<lambda>i. if inv_postId i = post_id p
                     then credit ((amount req - PLATFORM_FEE_USDC) * (investorRevenueShare p / 100)
                                   / of_nat (length (investorsOfPost s (post_id p)))) i
                     else i) (investors s)"
proof -
  let ?e = "(amount req - PLATFORM_FEE_USDC) * (investorRevenueShare p / 100)
              / of_nat (length (investorsOfPost s (post_id p)))"
  let ?xs = "existingInvestors s (post_id p)"
  obtain t b where d: "distribute f ?e ?xs s = (t, b)" by fastforce
  have "b \<and> investors s' = investors t"
    using assms(1-5) d
    by (auto simp: allocate_def Let_def split: if_splits option.splits prod.splits bool.splits)
  then have d': "distribute f ?e ?xs s = (t, True)" and eq: "investors s' = investors t"
    using d by simp_all
  have "investors t =
     map (\<lambda>i. case find (\<lambda>x. inv_id x = inv_id i) ?xs of
                 None \<Rightarrow> i
               | Some x \<Rightarrow> i\<lparr>totalEarnings := toFixed6 (totalEarnings x + ?e)\<rparr>) (investors s)"
    using distribute_all [OF d' distinct_existingInvestors [OF assms(6)]] .
  also have "\<dots> = map (\<lambda>i. if inv_postId i = post_id p then credit ?e i else i) (investors s)"
    by (rule map_cong) (simp_all add: find_existing [OF assms(6)] credit_def)
  finally show ?thesis using eq by simp
qed

lemma investorsOfPost_cong: "investors s' = investors s \<Longrightarrow> investorsOfPost s' pid = investorsOfPost s pid"
  by (simp add: investorsOfPost_def)

lemma slot_positions_cong:
  "investors s' = investors s \<Longrightarrow> slot_positions s' pid = slot_positions s pid"
  by (simp add: slot_positions_def investorsOfPost_def)

lemma slot_positions_shape:
  assumes "map (\<lambda>i. i\<lparr>totalEarnings := 0\<rparr>) (investors s')
           = map (\<lambda>i. i\<lparr>totalEarnings := 0\<rparr>) (investors s)"
  shows "slot_positions s' pid = slot_positions s pid"
proof -
  let ?z = "\<lambda>i. i\<lparr>totalEarnings := 0\<rparr>"
  have "slot_positions s' pid = map position (filter (\<lambda>i. inv_postId i = pid) (map ?z (investors s')))"
    by (simp add: slot_positions_def investorsOfPost_def filter_map comp_def)
  also have "\<dots> = map position (filter (\<lambda>i. inv_postId i = pid) (map ?z (investors s)))"
    using assms by simp
  also have "\<dots> = slot_positions s pid"
    by (simp add: slot_positions_def investorsOfPost_def filter_map comp_def)
  finally show ?thesis .
qed

lemma slot_positions_insert:
  assumes "insertInvestor ins s = Some s'"
  shows "slot_positions s' pid =
           slot_positions s pid @ (if inv_postId ins = pid then [position ins] else [])"
  using insertInvestor_frame [OF assms]
  by (simp add: slot_positions_def investorsOfPost_def)

lemma allocate_cases:
  assumes "allocate f req usr p s = (s', ok)"
  shows "s' = s
       \<or> (isBuyout req \<and> int (length (existingInvestors s (post_id p))) < maxInvestorSlots p \<and> ok
           \<and> (\<exists>ins. inv_postId ins = post_id p
                  \<and> position ins = int (length (existingInvestors s (post_id p))) + 1
                  \<and> insertInvestor ins s = Some s'))
       \<or> (\<not> (isBuyout req \<and> int (length (existingInvestors s (post_id p))) < maxInvestorSlots p)
           \<and> (\<exists>e t b. distribute f e (existingInvestors s (post_id p)) s = (t, b)
                  \<and> (s' = t \<or> (\<exists>ps. s' = settle f ps t))))
       \<or> (\<not> (isBuyout req \<and> int (length (existingInvestors s (post_id p))) < maxInvestorSlots p)
           \<and> (\<exists>ps. s' = settle f ps s))"
proof (cases "f OpSelectCreator \<or> f OpSelectInvestors \<or> f OpCountPayments")
  case True
  then show ?thesis using assms by (auto simp: allocate_def)
next
  case False
  note nf = this
  show ?thesis
  proof (cases "isBuyout req \<and> int (length (existingInvestors s (post_id p))) < maxInvestorSlots p")
    case True
    then show ?thesis
      using assms nf
      by (simp add: allocate_def Let_def split: if_splits option.splits) force+
  next
    case False
    note nb = this
    show ?thesis
    proof (cases "maxInvestorSlots p < int (totalPayments s (post_id p))
                   \<and> int (length (existingInvestors s (post_id p))) = maxInvestorSlots p
                   \<and> 0 < investorRevenueShare p")
      case True
      obtain t b where d: "distribute f ((amount req - PLATFORM_FEE_USDC) * (investorRevenueShare p / 100)
                / of_nat (length (existingInvestors s (post_id p))))
              (existingInvestors s (post_id p)) s = (t, b)"
        by fastforce
      have "s' = t \<or> (\<exists>ps. s' = settle f ps t)"
        using assms nf nb True d
        by (simp add: allocate_def Let_def split: if_splits option.splits bool.splits) blast+
      then show ?thesis using nb d by blast
    next
      case False
      have "s' = s \<or> (\<exists>ps. s' = settle f ps s)"
        using assms nf nb False
        by (simp add: allocate_def Let_def split: if_splits option.splits) blast+
      then show ?thesis using nb by blast
    qed
  qed
qed

lemma length_slot_positions [simp]:
  "length (slot_positions s pid) = length (investorsOfPost s pid)"
  by (simp add: slot_positions_def)

lemma slot_positions_distribute:
  "distribute f e xs s = (t, b) \<Longrightarrow> slot_positions t pid = slot_positions s pid"
  using distribute_investors_shape [of f e xs s] slot_positions_shape [of t s pid] by simp

lemma slot_positions_settle [simp]:
  "slot_positions (settle f ps t) pid = slot_positions t pid"
  by (simp add: slot_positions_def investorsOfPost_def)

lemma allocate_positions:
  assumes "allocate f req usr p s = (s', ok)"
  shows "slot_positions s' pid = slot_positions s pid
       \<or> (post_id p = pid \<and> isBuyout req \<and> ok
           \<and> int (length (slot_positions s pid)) < maxInvestorSlots p
           \<and> slot_positions s' pid = slot_positions s pid @ [int (length (slot_positions s pid)) + 1])"
proof -
  from allocate_cases [OF assms]
  consider
    (same) "s' = s"
  | (ins) ins where "isBuyout req" "int (length (existingInvestors s (post_id p))) < maxInvestorSlots p"
      "ok" "inv_postId ins = post_id p"
      "position ins = int (length (existingInvestors s (post_id p))) + 1"
      "insertInvestor ins s = Some s'"
  | (dist) e t b where "distribute f e (existingInvestors s (post_id p)) s = (t, b)"
      "s' = t \<or> (\<exists>ps. s' = settle f ps t)"
  | (sett) ps where "s' = settle f ps s"
    by blast
  then show ?thesis
  proof cases
    case same
    then show ?thesis by simp
  next
    case ins
    show ?thesis
    proof (cases "post_id p = pid")
      case True
      then show ?thesis
        using ins slot_positions_insert [OF ins(6), of pid]
        by simp
    next
      case False
      then show ?thesis using ins slot_positions_insert [OF ins(6), of pid] by simp
    qed
  next
    case dist
    then show ?thesis using slot_positions_distribute [OF dist(1), of pid] by auto
  next
    case sett
    then show ?thesis by simp
  qed
qed

lemma allocate_buyout_ok:
  assumes "allocate f req usr p s = (s', True)" and "isBuyout req"
    and "int (length (slot_positions s (post_id p))) < maxInvestorSlots p"
  shows "slot_positions s' (post_id p)
         = slot_positions s (post_id p) @ [int (length (slot_positions s (post_id p))) + 1]"
proof -
  have nf: "\<not> (f OpSelectCreator \<or> f OpSelectInvestors \<or> f OpCountPayments)"
    using assms(1) by (auto simp: allocate_def)
  obtain ins where i: "inv_postId ins = post_id p"
      "position ins = int (length (existingInvestors s (post_id p))) + 1"
      "insertInvestor ins s = Some s'"
    using assms nf
    by (simp add: allocate_def Let_def split: if_splits option.splits) force+
  show ?thesis
    using slot_positions_insert [OF i(3), of "post_id p"] i(1,2)
    by simp
qed

lemma record_payment_cases:
  assumes "record_payment f pr req usr p s = (r, s')"
  shows "(\<exists>s1. createPayment (f OpInsertPayment) (f OpCreatePaymentLookup)
                 (content_row pr req usr p 0) s = (s1, None) \<and> s' = s1)
       \<or> (\<exists>s1 row. createPayment (f OpInsertPayment) (f OpCreatePaymentLookup)
                 (content_row pr req usr p 0) s = (s1, Some row)
             \<and> (s' = s1
                 \<or> (\<exists>s2 s3 ok. (investors s2 = investors s1 \<and> payments s2 = payments s1
                                  \<and> nextId s2 = nextId s1)
                        \<and> allocate f req usr p s2 = (s3, ok)
                        \<and> (s' = s3 \<or> (ok \<and> finish_payment f req usr p s3 = (r, s'))))))"
proof -
  obtain s1 x where c: "createPayment (f OpInsertPayment) (f OpCreatePaymentLookup)
                 (content_row pr req usr p 0) s = (s1, x)"
    by fastforce
  show ?thesis
  proof (cases x)
    case None
    then show ?thesis using assms c by (simp add: record_payment_def)
  next
    case (Some row)
    let ?s2 = "if isFree p then s1
               else s1\<lparr>platformFees := platformFees s1 @
                         [\<lparr>fee_paymentId = pay_id row, fee_postId = post_id p,
                           fee_amount = PLATFORM_FEE_USDC, fee_cryptocurrency = ''USDC'',
                           fee_status = ''completed''\<rparr>]\<rparr>"
    obtain s3 ok where a: "allocate f req usr p ?s2 = (s3, ok)" by fastforce
    have i: "investors ?s2 = investors s1 \<and> payments ?s2 = payments s1 \<and> nextId ?s2 = nextId s1"
      by simp
    have "s' = s1 \<or> s' = s3 \<or> (ok \<and> finish_payment f req usr p s3 = (r, s'))"
      using assms c Some a
      by (auto simp: record_payment_def Let_def split: if_splits bool.splits)
    then show ?thesis using c Some a i by blast
  qed
qed

lemma record_payment_positions:
  assumes "record_payment f pr req usr p s = (r, s')"
  shows "slot_positions s' pid = slot_positions s pid
       \<or> (post_id p = pid \<and> isBuyout req
           \<and> int (length (investorsOfPost s pid)) < maxInvestorSlots p
           \<and> slot_positions s' pid = slot_positions s pid @ [int (length (investorsOfPost s pid)) + 1])"
proof -
  from record_payment_cases [OF assms]
  consider
    (none) s1 where "createPayment (f OpInsertPayment) (f OpCreatePaymentLookup)
                 (content_row pr req usr p 0) s = (s1, None)" "s' = s1"
  | (paid) s1 row where "createPayment (f OpInsertPayment) (f OpCreatePaymentLookup)
                 (content_row pr req usr p 0) s = (s1, Some row)" "s' = s1"
  | (alloc) s1 row s2 s3 ok where "createPayment (f OpInsertPayment) (f OpCreatePaymentLookup)
                 (content_row pr req usr p 0) s = (s1, Some row)"
      "investors s2 = investors s1 \<and> payments s2 = payments s1 \<and> nextId s2 = nextId s1"
      "allocate f req usr p s2 = (s3, ok)"
      "s' = s3 \<or> (ok \<and> finish_payment f req usr p s3 = (r, s'))"
    by blast
  then show ?thesis
  proof cases
    case none
    have "investors s' = investors s" using createPayment_frame(4) [OF none(1)] none(2) by simp
    then show ?thesis using slot_positions_cong by blast
  next
    case paid
    have "investors s' = investors s" using createPayment_frame(4) [OF paid(1)] paid(2) by simp
    then show ?thesis using slot_positions_cong by blast
  next
    case alloc
    have i2: "investors s2 = investors s"
      using createPayment_frame(4) [OF alloc(1)] alloc(2) by simp
    have p2: "slot_positions s2 pid = slot_positions s pid"
      using i2 by (rule slot_positions_cong)
    have l2: "investorsOfPost s2 pid = investorsOfPost s pid"
      using i2 by (rule investorsOfPost_cong)
    have "investors s' = investors s3"
      using alloc(4) finish_payment_frame by blast
    then have p3: "slot_positions s' pid = slot_positions s3 pid"
      by (rule slot_positions_cong)
    show ?thesis
      using allocate_positions [OF alloc(3), of pid] unfolding p3 p2 l2 length_slot_positions by blast
  qed
qed

lemma pay_positions:
  assumes "pay f pr req s = (r, s')"
  shows "slot_positions s' pid = slot_positions s pid
       \<or> (req_postId req = pid \<and> isBuyout req
           \<and> (\<exists>p. getPost s pid = Some p \<and> int (length (investorsOfPost s pid)) < maxInvestorSlots p)
           \<and> slot_positions s' pid = slot_positions s pid @ [int (length (investorsOfPost s pid)) + 1])"
proof -
  let ?s0 = "if f OpIncrementViewCount then s else incrementViewCount s (req_postId req)"
  have s0: "slot_positions ?s0 pid = slot_positions s pid" "investorsOfPost ?s0 pid = investorsOfPost s pid"
    by (simp_all add: slot_positions_def)
  from pay_cases [OF assms]
  consider (early) "s' = s \<or> s' = incrementViewCount s (req_postId req)"
    | (late) usr p where "getPost s (req_postId req) = Some p"
        "record_payment f pr req usr p ?s0 = (r, s')"
    by (auto split: if_splits)
  then show ?thesis
  proof cases
    case early
    then show ?thesis by (auto simp: slot_positions_def)
  next
    case late
    have pid: "post_id p = req_postId req" using late(1) by (rule getPost_id)
    show ?thesis
      using record_payment_positions [OF late(2), of pid] late(1) pid
      unfolding s0 by auto
  qed
qed

lemma pay_buyout_success:
  assumes "pay f pr req s = (Success False, s')" and "isBuyout req"
  shows "slot_positions s' (req_postId req)
         = slot_positions s (req_postId req) @ [int (length (investorsOfPost s (req_postId req))) + 1]"
proof -
  let ?pid = "req_postId req"
  let ?s0 = "if f OpIncrementViewCount then s else incrementViewCount s ?pid"
  from pay_success [OF assms(1)] obtain usr p where
    p: "getPost s ?pid = Some p"
    and free: "\<not> (isBuyout req \<and> maxInvestorSlots p \<le> int (getInvestorCount s (post_id p)))"
    and r: "record_payment f pr req usr p ?s0 = (Success False, s')"
    by auto
  have pid: "post_id p = ?pid" using p by (rule getPost_id)
  from record_payment_success [OF r] obtain s1 s2 s3 where
    c: "createPayment (f OpInsertPayment) (f OpCreatePaymentLookup)
          (content_row pr req usr p 0) ?s0
        = (s1, Some (content_row pr req usr p (nextId ?s0)))"
    and s2: "s2 = (if isFree p then s1
                    else s1\<lparr>platformFees := platformFees s1 @
                              [\<lparr>fee_paymentId = nextId ?s0, fee_postId = post_id p,
                                fee_amount = PLATFORM_FEE_USDC, fee_cryptocurrency = ''USDC'',
                                fee_status = ''completed''\<rparr>]\<rparr>)"
    and a: "allocate f req usr p s2 = (s3, True)"
    and fi: "finish_payment f req usr p s3 = (Success False, s')"
    by blast
  have i2: "investors s2 = investors s"
    using createPayment_frame(4) [OF c] s2 by (simp split: if_splits)
  have p2: "slot_positions s2 ?pid = slot_positions s ?pid"
    using i2 by (rule slot_positions_cong)
  have l2: "investorsOfPost s2 ?pid = investorsOfPost s ?pid"
    using i2 by (rule investorsOfPost_cong)
  have "investors s' = investors s3" using finish_payment_frame [OF fi] by simp
  then have p3: "slot_positions s' ?pid = slot_positions s3 ?pid" by (rule slot_positions_cong)
  have room: "int (length (slot_positions s2 (post_id p))) < maxInvestorSlots p"
    using free assms(2) by (simp add: pid l2 getInvestorCount_def)
  show ?thesis
    using allocate_buyout_ok [OF a assms(2) room] by (simp add: pid p3 p2 l2)
qed

lemma pay_posts:
  assumes "pay f pr req s = (r, s')"
  shows "posts s' = posts s \<or> posts s' = posts (incrementViewCount s (req_postId req))"
proof -
  from pay_cases [OF assms]
  consider (early) "s' = s \<or> s' = incrementViewCount s (req_postId req)"
    | (late) usr p where
        "record_payment f pr req usr p
           (if f OpIncrementViewCount then s else incrementViewCount s (req_postId req)) = (r, s')"
    by (auto split: if_splits)
  then show ?thesis
  proof cases
    case early
    then show ?thesis by auto
  next
    case late
    then show ?thesis using record_payment_frame [OF late] by (auto split: if_splits)
  qed
qed

lemma getPost_cong: "posts s' = posts s \<Longrightarrow> getPost s' pid = getPost s pid"
  by (simp add: getPost_def)

lemma pay_getPost:
  assumes "pay f pr req s = (r, s')" and "getPost s pid = Some p"
  shows "\<exists>v. getPost s' pid = Some (p\<lparr>viewCount := v\<rparr>)"
proof -
  have same: "getPost s pid = Some (p\<lparr>viewCount := viewCount p\<rparr>)" using assms(2) by simp
  from pay_posts [OF assms(1)] show ?thesis
  proof
    assume "posts s' = posts s"
    then have "getPost s' pid = getPost s pid" by (rule getPost_cong)
    then have "getPost s' pid = Some (p\<lparr>viewCount := viewCount p\<rparr>)" using same by simp
    then show ?thesis ..
  next
    assume "posts s' = posts (incrementViewCount s (req_postId req))"
    then have "getPost s' pid = getPost (incrementViewCount s (req_postId req)) pid"
      by (rule getPost_cong)
    then have "getPost s' pid =
        Some (if post_id p = req_postId req then p\<lparr>viewCount := viewCount p + 1\<rparr> else p)"
      using assms(2) by (simp add: getPost_incrementViewCount)
    then have "getPost s' pid =
        Some (p\<lparr>viewCount := (if post_id p = req_postId req then viewCount p + 1 else viewCount p)\<rparr>)"
      by simp
    then show ?thesis ..
  qed
qed

lemma upt_int_snoc: "map int [1..<Suc k] @ [int k + 1] = map int [1..<Suc (Suc k)]"
  by simp

lemma pay_buyout_full:
  assumes "getPost s pid = Some p"
    and "maxInvestorSlots p \<le> int (getInvestorCount s pid)"
    and "isBuyout req" and "req_postId req = pid"
  shows "investors (snd (pay f pr req s)) = investors s
       \<and> payments (snd (pay f pr req s)) = payments s
       \<and> fst (pay f pr req s) \<noteq> Success False
       \<and> ((\<exists>usr. getCurrentUser f s (wallet req) = Some usr
                 \<and> \<not> hasUserPaid s (user_id usr) pid Content)
            \<and> \<not> f OpGetPost
            \<and> (\<exists>c. cryptocurrency req = Some c \<and> c \<in> set (split_comma (acceptedCryptos p)))
            \<and> \<not> f OpHasUserPaid \<and> \<not> network_rejected pr req \<and> \<not> f OpCountInvestors
            \<longrightarrow> fst (pay f pr req s) = Slots_full)"
proof -
  have pid: "post_id p = pid" using assms(1) by (rule getPost_id)
  obtain r s' where st: "pay f pr req s = (r, s')" by fastforce
  have early: "r \<noteq> Success False
           \<and> s' = (if r = Unauthorized \<or> r = Post_not_found \<or> f OpGetPost \<or> f OpIncrementViewCount
                   then s else incrementViewCount s (req_postId req))"
    using pay_cases [OF st] assms pid by auto
  have a: "investors s' = investors s \<and> payments s' = payments s \<and> r \<noteq> Success False"
    using early by (simp split: if_splits)
  have b: "r = Slots_full"
    if "getCurrentUser f s (wallet req) = Some usr" "\<not> hasUserPaid s (user_id usr) pid Content"
      "\<not> f OpGetPost" "cryptocurrency req = Some c" "c \<in> set (split_comma (acceptedCryptos p))"
      "\<not> f OpHasUserPaid" "\<not> network_rejected pr req" "\<not> f OpCountInvestors"
    for usr c
    using st that assms pid
    by (cases "f OpIncrementViewCount") (simp_all add: pay_def Let_def)
  show ?thesis using a b st by auto
qed

lemma pay_all_positions:
  "pay_all pr reqs s = (rs, s') \<Longrightarrow> getPost s pid = Some p \<Longrightarrow>
   slot_positions s pid = map int [1..<Suc k] \<Longrightarrow>
   \<exists>k' v. slot_positions s' pid = map int [1..<Suc k']
          \<and> k + successful_buyouts pid reqs rs \<le> k'
          \<and> int k' \<le> max (int k) (maxInvestorSlots p)
          \<and> getPost s' pid = Some (p\<lparr>viewCount := v\<rparr>)"
proof (induction reqs arbitrary: s rs k p)
  case Nil
  then have "s' = s" "rs = []" by simp_all
  moreover have "getPost s pid = Some (p\<lparr>viewCount := viewCount p\<rparr>)" using Nil.prems(2) by simp
  ultimately show ?case using Nil.prems(3) by (intro exI [of _ k] exI [of _ "viewCount p"]) simp
next
  case (Cons a reqs)
  obtain f req where a: "a = (f, req)" by (cases a)
  obtain r s1 where st: "pay f pr req s = (r, s1)" by fastforce
  obtain rs' where rest: "pay_all pr reqs s1 = (rs', s')" and rs: "rs = r # rs'"
    using Cons.prems(1) a st by (auto split: prod.splits)
  obtain v1 where p1: "getPost s1 pid = Some (p\<lparr>viewCount := v1\<rparr>)"
    using pay_getPost [OF st Cons.prems(2)] by blast
  have len: "length (investorsOfPost s pid) = k"
    using arg_cong [OF Cons.prems(3), of length] by simp
  let ?hit = "r = Success False \<and> isBuyout req \<and> req_postId req = pid"
  have "\<exists>k1. slot_positions s1 pid = map int [1..<Suc k1] \<and> k + (if ?hit then 1 else 0) \<le> k1
            \<and> int k1 \<le> max (int k) (maxInvestorSlots p)"
  proof (cases ?hit)
    case True
    have grown: "slot_positions s1 pid = slot_positions s pid @ [int k + 1]"
      using pay_buyout_success [of f pr req s s1] st True len by simp
    then have "slot_positions s1 pid \<noteq> slot_positions s pid" by simp
    then have room: "int k < maxInvestorSlots p"
      using pay_positions [OF st, of pid] Cons.prems(2) len by auto
    have "slot_positions s1 pid = map int [1..<Suc (Suc k)]"
      unfolding grown Cons.prems(3) by (rule upt_int_snoc)
    then show ?thesis
      using room True by (intro exI [of _ "Suc k"]) auto
  next
    case False
    from pay_positions [OF st, of pid] show ?thesis
    proof
      assume "slot_positions s1 pid = slot_positions s pid"
      then show ?thesis using Cons.prems(3) False by (intro exI [of _ k]) simp
    next
      assume h: "req_postId req = pid \<and> isBuyout req
           \<and> (\<exists>p. getPost s pid = Some p \<and> int (length (investorsOfPost s pid)) < maxInvestorSlots p)
           \<and> slot_positions s1 pid = slot_positions s pid @ [int (length (investorsOfPost s pid)) + 1]"
      then have grown: "slot_positions s1 pid = slot_positions s pid @ [int k + 1]"
        using len by simp
      have room: "int k < maxInvestorSlots p" using h Cons.prems(2) len by auto
      have "slot_positions s1 pid = map int [1..<Suc (Suc k)]"
        unfolding grown Cons.prems(3) by (rule upt_int_snoc)
      then show ?thesis
        using room False by (intro exI [of _ "Suc k"]) auto
    qed
  qed
  then obtain k1 where k1: "slot_positions s1 pid = map int [1..<Suc k1]"
      "k + (if ?hit then 1 else 0) \<le> k1" "int k1 \<le> max (int k) (maxInvestorSlots p)"
    by blast
  from Cons.IH [OF rest p1 k1(1)] obtain k' v where
    k': "slot_positions s' pid = map int [1..<Suc k']"
      "k1 + successful_buyouts pid reqs rs' \<le> k'"
      "int k' \<le> max (int k1) (maxInvestorSlots (p\<lparr>viewCount := v1\<rparr>))"
      "getPost s' pid = Some (p\<lparr>viewCount := v1, viewCount := v\<rparr>)"
    by blast
  have m: "maxInvestorSlots (p\<lparr>viewCount := v1\<rparr>) = maxInvestorSlots p"
    by (simp add: maxInvestorSlots_def)
  show ?case
    using k' k1 m a rs
    by (intro exI [of _ k'] exI [of _ v]) auto
qed

lemma set_map_int_upt: "set (map int [1..<Suc n]) = {1..int n}"
proof (rule set_eqI)
  fix x :: int
  show "x \<in> set (map int [1..<Suc n]) \<longleftrightarrow> x \<in> {1..int n}"
  proof
    assume "x \<in> set (map int [1..<Suc n])"
    then show "x \<in> {1..int n}" by auto
  next
    assume a: "x \<in> {1..int n}"
    then have "nat x \<in> set [1..<Suc n]" "x = int (nat x)" by auto
    then show "x \<in> set (map int [1..<Suc n])" by (metis image_eqI set_map)
  qed
qed

lemma distinct_map_int_upt: "distinct (map int [1..<Suc n])"
  by (simp add: distinct_map inj_on_def del: upt_Suc)


lemmas pool_defs = ex_pool_start_def ex_buyouts_def ex_pool_post_def ex_erin_def ex_req_erin_def
  example_defs

lemma ex_pool_run:
  "pay_all False ex_buyouts ex_pool_start =
   ([Success False, Success False, Success False],
    ex_pool_start
      \<lparr>posts := [ex_pool_post\<lparr>viewCount := 3\<rparr>],
       payments := [content_row False ex_req_alice ex_alice ex_pool_post 0,
                    content_row False ex_req_bob ex_bob ex_pool_post 2,
                    content_row False ex_req_erin ex_erin ex_pool_post 4],
       platformFees :=
         [\<lparr>fee_paymentId = 0, fee_postId = ''p1'', fee_amount = 1 / 20,
           fee_cryptocurrency = ''USDC'', fee_status = ''completed''\<rparr>,
          \<lparr>fee_paymentId = 2, fee_postId = ''p1'', fee_amount = 1 / 20,
           fee_cryptocurrency = ''USDC'', fee_status = ''completed''\<rparr>,
          \<lparr>fee_paymentId = 4, fee_postId = ''p1'', fee_amount = 1 / 20,
           fee_cryptocurrency = ''USDC'', fee_status = ''completed''\<rparr>],
       investors :=
         [\<lparr>inv_id = 1, inv_postId = ''p1'', inv_userId = ''u1'', position = 1,
           investmentAmount = 10, totalEarnings = 0\<rparr>,
          \<lparr>inv_id = 3, inv_postId = ''p1'', inv_userId = ''u2'', position = 2,
           investmentAmount = 10, totalEarnings = 0\<rparr>,
          \<lparr>inv_id = 5, inv_postId = ''p1'', inv_userId = ''u4'', position = 3,
           investmentAmount = 10, totalEarnings = 0\<rparr>],
       nextId := 6,
       sent :=
         [BuyoutUpdate ''p1'' 1 [(''u1'', 0)],
          InvestorEarningsUpdate ''u1'' ''p1'' 0,
          BuyoutUpdate ''p1'' 2 [(''u1'', 0), (''u2'', 0)],
          InvestorEarningsUpdate ''u1'' ''p1'' 0,
          InvestorEarningsUpdate ''u2'' ''p1'' 0,
          BuyoutUpdate ''p1'' 3 [(''u1'', 0), (''u2'', 0), (''u4'', 0)],
          InvestorEarningsUpdate ''u1'' ''p1'' 0,
          InvestorEarningsUpdate ''u2'' ''p1'' 0,
          InvestorEarningsUpdate ''u4'' ''p1'' 0]\<rparr>)"
  by (simp add: route_defs pool_defs)


lemma ex_pool_store_eq:
  "ex_pool_store =
    ex_pool_start
      \<lparr>posts := [ex_pool_post\<lparr>viewCount := 3\<rparr>],
       payments := [content_row False ex_req_alice ex_alice ex_pool_post 0,
                    content_row False ex_req_bob ex_bob ex_pool_post 2,
                    content_row False ex_req_erin ex_erin ex_pool_post 4],
       platformFees :=
         [\<lparr>fee_paymentId = 0, fee_postId = ''p1'', fee_amount = 1 / 20,
           fee_cryptocurrency = ''USDC'', fee_status = ''completed''\<rparr>,
          \<lparr>fee_paymentId = 2, fee_postId = ''p1'', fee_amount = 1 / 20,
           fee_cryptocurrency = ''USDC'', fee_status = ''completed''\<rparr>,
          \<lparr>fee_paymentId = 4, fee_postId = ''p1'', fee_amount = 1 / 20,
           fee_cryptocurrency = ''USDC'', fee_status = ''completed''\<rparr>],
       investors :=
         [\<lparr>inv_id = 1, inv_postId = ''p1'', inv_userId = ''u1'', position = 1,
           investmentAmount = 10, totalEarnings = 0\<rparr>,
          \<lparr>inv_id = 3, inv_postId = ''p1'', inv_userId = ''u2'', position = 2,
           investmentAmount = 10, totalEarnings = 0\<rparr>,
          \<lparr>inv_id = 5, inv_postId = ''p1'', inv_userId = ''u4'', position = 3,
           investmentAmount = 10, totalEarnings = 0\<rparr>],
       nextId := 6,
       sent :=
         [BuyoutUpdate ''p1'' 1 [(''u1'', 0)],
          InvestorEarningsUpdate ''u1'' ''p1'' 0,
          BuyoutUpdate ''p1'' 2 [(''u1'', 0), (''u2'', 0)],
          InvestorEarningsUpdate ''u1'' ''p1'' 0,
          InvestorEarningsUpdate ''u2'' ''p1'' 0,
          BuyoutUpdate ''p1'' 3 [(''u1'', 0), (''u2'', 0), (''u4'', 0)],
          InvestorEarningsUpdate ''u1'' ''p1'' 0,
          InvestorEarningsUpdate ''u2'' ''p1'' 0,
          InvestorEarningsUpdate ''u4'' ''p1'' 0]\<rparr>"
  unfolding ex_pool_store_def ex_pool_run by simp

lemmas pool_store_defs = ex_pool_store_eq ex_req_small_def ex_req_late_buyout_def pool_defs

lemma ex_small_payment:
  "fst (pay no_faults False ex_req_small ex_pool_store) = Success False"
  "map totalEarnings (investors (snd (pay no_faults False ex_req_small ex_pool_store)))
     = [63333 / 1000000, 63333 / 1000000, 63333 / 1000000]"
  "map totalEarnings (investors ex_pool_store) = [0, 0, 0]"
  by (simp_all add: route_defs pool_store_defs)







section \<open>An invariant of the ledger\<close>

text \<open>
  The two assumptions that the revenue-share theorem makes about the store (distinct
  investor row identifiers, and no more investors than content payments on a post) hold
  in every store reached from one without investors by requests to the payment route,
  whatever fails: the route preserves \<open>ledger_ok\<close>.
\<close>

lemma ledger_ok_counts:
  "ledger_ok s \<Longrightarrow> getInvestorCount s pid \<le> totalPayments s pid"
proof (cases "investorsOfPost s pid")
  case Nil
  then show ?thesis by (simp add: getInvestorCount_def)
next
  case (Cons i rest)
  assume ok: "ledger_ok s"
  have "i \<in> set (investorsOfPost s pid)" using Cons by simp
  then have "i \<in> set (investors s)" "inv_postId i = pid" by (auto simp: investorsOfPost_def)
  then show ?thesis using ok by (auto simp: ledger_ok_def)
qed

lemma ledger_okI:
  assumes "distinct (map inv_id (investors s))"
    and "\<And>i. i \<in> set (investors s) \<Longrightarrow> inv_id i < nextId s"
    and "\<And>pid. getInvestorCount s pid \<le> totalPayments s pid"
  shows "ledger_ok s"
  using assms by (simp add: ledger_ok_def)

lemma same_slots_ids: "same_slots s s' \<Longrightarrow> map inv_id (investors s') = map inv_id (investors s)"
proof -
  assume a: "same_slots s s'"
  have "map inv_id (investors s') = map inv_id (map (\<lambda>i. i\<lparr>totalEarnings := 0\<rparr>) (investors s'))"
    by (simp add: comp_def)
  also have "\<dots> = map inv_id (map (\<lambda>i. i\<lparr>totalEarnings := 0\<rparr>) (investors s))"
    using a by (simp add: same_slots_def)
  also have "\<dots> = map inv_id (investors s)" by (simp add: comp_def)
  finally show ?thesis .
qed

lemma same_slots_count: "same_slots s s' \<Longrightarrow> getInvestorCount s' pid = getInvestorCount s pid"
proof -
  assume "same_slots s s'"
  then have "slot_positions s' pid = slot_positions s pid"
    unfolding same_slots_def by (rule slot_positions_shape)
  then have "length (slot_positions s' pid) = length (slot_positions s pid)" by simp
  then show ?thesis by (simp add: getInvestorCount_def)
qed

lemma same_slots_refl [simp]: "same_slots s s"
  by (simp add: same_slots_def)

lemma same_slots_investors: "investors s' = investors s \<Longrightarrow> same_slots s s'"
  by (simp add: same_slots_def)

lemma same_slots_trans: "same_slots s t \<Longrightarrow> same_slots t u \<Longrightarrow> same_slots s u"
  by (simp add: same_slots_def)

lemma totalPayments_append:
  "payments s' = payments s @ extra \<Longrightarrow> totalPayments s pid \<le> totalPayments s' pid"
  by (simp add: totalPayments_def)

lemma allocate_ledger:
  assumes "allocate f req usr p s = (s', ok)"
  shows "payments s' = payments s \<and> nextId s \<le> nextId s'
       \<and> (same_slots s s'
           \<or> (\<exists>ins. inv_postId ins = post_id p
                  \<and> investors s' = investors s @ [ins\<lparr>inv_id := nextId s\<rparr>]
                  \<and> nextId s' = nextId s + 1))"
proof -
  from allocate_cases [OF assms]
  consider
    (same) "s' = s"
  | (ins) ins where "inv_postId ins = post_id p" "insertInvestor ins s = Some s'"
  | (dist) e t b where "distribute f e (existingInvestors s (post_id p)) s = (t, b)"
      "s' = t \<or> (\<exists>ps. s' = settle f ps t)"
  | (sett) ps where "s' = settle f ps s"
    by blast
  then show ?thesis
  proof cases
    case same
    then show ?thesis by simp
  next
    case ins
    then show ?thesis using insertInvestor_frame [OF ins(2)] by auto
  next
    case dist
    have t: "payments t = payments s" "nextId t = nextId s" "same_slots s t"
      using dist(1) distribute_frame(3,5) [of f e "existingInvestors s (post_id p)" s]
        distribute_investors_shape [of f e "existingInvestors s (post_id p)" s]
      by (simp_all add: same_slots_def)
    from dist(2) show ?thesis
    proof
      assume "s' = t"
      then show ?thesis using t by simp
    next
      assume "\<exists>ps. s' = settle f ps t"
      then obtain ps where "s' = settle f ps t" ..
      then show ?thesis using t by (simp add: same_slots_def)
    qed
  next
    case sett
    then show ?thesis by (simp add: same_slots_def)
  qed
qed

lemma finish_payment_ledger:
  assumes "finish_payment f req usr p s = (r, s')"
  shows "investors s' = investors s \<and> nextId s \<le> nextId s' \<and> (\<exists>extra. payments s' = payments s @ extra)"
proof -
  have c: "\<And>a b ins t t' x. createPayment a b ins t = (t', x) \<Longrightarrow>
     investors t' = investors t \<and> nextId t \<le> nextId t' \<and> (\<exists>extra. payments t' = payments t @ extra)"
    by (auto simp: createPayment_def Let_def split: if_splits)
  show ?thesis
    using assms
    by (auto simp: finish_payment_def Let_def split: if_splits prod.splits option.splits dest!: c)
qed

lemma record_payment_ledger:
  assumes "record_payment f pr req usr p s = (r, s')"
  shows "nextId s \<le> nextId s' \<and> (\<exists>extra. payments s' = payments s @ extra)
       \<and> (same_slots s s'
           \<or> (\<exists>ins n extra. inv_postId ins = post_id p
                  \<and> investors s' = investors s @ [ins\<lparr>inv_id := n\<rparr>]
                  \<and> nextId s \<le> n \<and> n < nextId s'
                  \<and> payments s' = payments s @ content_row pr req usr p (nextId s) # extra))"
proof -
  from record_payment_cases [OF assms]
  consider
    (none) s1 where "createPayment (f OpInsertPayment) (f OpCreatePaymentLookup)
                 (content_row pr req usr p 0) s = (s1, None)" "s' = s1"
  | (paid) s1 row where "createPayment (f OpInsertPayment) (f OpCreatePaymentLookup)
                 (content_row pr req usr p 0) s = (s1, Some row)" "s' = s1"
  | (alloc) s1 row s2 s3 ok where "createPayment (f OpInsertPayment) (f OpCreatePaymentLookup)
                 (content_row pr req usr p 0) s = (s1, Some row)"
      "investors s2 = investors s1 \<and> payments s2 = payments s1 \<and> nextId s2 = nextId s1"
      "allocate f req usr p s2 = (s3, ok)"
      "s' = s3 \<or> (ok \<and> finish_payment f req usr p s3 = (r, s'))"
    by blast
  then show ?thesis
  proof cases
    case none
    have "investors s1 = investors s" "nextId s \<le> nextId s1"
      using createPayment_frame(4,7) [OF none(1)] by simp_all
    moreover have "\<exists>extra. payments s1 = payments s @ extra"
      using createPayment_None [OF none(1)] by auto
    ultimately show ?thesis using none(2) by (simp add: same_slots_def)
  next
    case paid
    have "investors s1 = investors s" "nextId s \<le> nextId s1"
      using createPayment_frame(4,7) [OF paid(1)] by simp_all
    moreover have "\<exists>extra. payments s1 = payments s @ extra"
      using createPayment_Some(2) [OF paid(1)] by auto
    ultimately show ?thesis using paid(2) by (simp add: same_slots_def)
  next
    case alloc
    let ?row = "content_row pr req usr p (nextId s)"
    have c: "row = ?row" "payments s1 = payments s @ [?row]" "nextId s1 = nextId s + 1"
      "investors s1 = investors s"
      using createPayment_Some(1,2,3) [OF alloc(1)] createPayment_frame(4) [OF alloc(1)]
      by (simp_all add: content_row_def)
    have s2: "payments s2 = payments s @ [?row]" "nextId s2 = nextId s + 1" "investors s2 = investors s"
      using alloc(2) c by simp_all
    from allocate_ledger [OF alloc(3)] have a: "payments s3 = payments s2" "nextId s2 \<le> nextId s3"
      and grow: "same_slots s2 s3
           \<or> (\<exists>ins. inv_postId ins = post_id p
                  \<and> investors s3 = investors s2 @ [ins\<lparr>inv_id := nextId s2\<rparr>]
                  \<and> nextId s3 = nextId s2 + 1)"
      by simp_all
    have fin: "investors s' = investors s3 \<and> nextId s3 \<le> nextId s'
               \<and> (\<exists>extra. payments s' = payments s3 @ extra)"
      using alloc(4) finish_payment_ledger by auto
    then obtain extra where e: "payments s' = payments s @ ?row # extra"
      using a(1) s2(1) by auto
    have n: "nextId s \<le> nextId s'" using fin a(2) s2(2) by simp
    from grow show ?thesis
    proof
      assume "same_slots s2 s3"
      then have "same_slots s s'" using fin s2(3) by (simp add: same_slots_def)
      then show ?thesis using n e by auto
    next
      assume "\<exists>ins. inv_postId ins = post_id p
                  \<and> investors s3 = investors s2 @ [ins\<lparr>inv_id := nextId s2\<rparr>]
                  \<and> nextId s3 = nextId s2 + 1"
      then obtain ins where i: "inv_postId ins = post_id p"
          "investors s3 = investors s2 @ [ins\<lparr>inv_id := nextId s2\<rparr>]" "nextId s3 = nextId s2 + 1"
        by blast
      have "investors s' = investors s @ [ins\<lparr>inv_id := nextId s2\<rparr>]"
        using fin i(2) s2(3) by simp
      moreover have "nextId s \<le> nextId s2" "nextId s2 < nextId s'"
        using s2(2) i(3) fin by simp_all
      ultimately show ?thesis using n e i(1) by blast
    qed
  qed
qed

lemma pay_ledger:
  assumes "pay f pr req s = (r, s')"
  shows "nextId s \<le> nextId s' \<and> (\<exists>extra. payments s' = payments s @ extra)
       \<and> (same_slots s s'
           \<or> (\<exists>ins n c extra. inv_postId ins = req_postId req
                  \<and> investors s' = investors s @ [ins\<lparr>inv_id := n\<rparr>]
                  \<and> nextId s \<le> n \<and> n < nextId s'
                  \<and> pay_postId c = req_postId req \<and> paymentType c = Content
                  \<and> payments s' = payments s @ c # extra))"
proof -
  let ?s0 = "if f OpIncrementViewCount then s else incrementViewCount s (req_postId req)"
  from pay_cases [OF assms]
  consider (early) "s' = s \<or> s' = incrementViewCount s (req_postId req)"
    | (late) usr p where "getPost s (req_postId req) = Some p"
        "record_payment f pr req usr p ?s0 = (r, s')"
    by (auto split: if_splits)
  then show ?thesis
  proof cases
    case early
    then show ?thesis by (auto simp: same_slots_def)
  next
    case late
    have pid: "post_id p = req_postId req" using late(1) by (rule getPost_id)
    have s0: "nextId ?s0 = nextId s" "payments ?s0 = payments s" "investors ?s0 = investors s"
      by simp_all
    have ss: "\<And>t. same_slots ?s0 t = same_slots s t" by (simp add: same_slots_def)
    have row: "pay_postId (content_row pr req usr p (nextId s)) = req_postId req"
      "paymentType (content_row pr req usr p (nextId s)) = Content"
      by (simp_all add: content_row_def pid)
    from record_payment_ledger [OF late(2)] show ?thesis
      unfolding s0 ss pid using row by blast
  qed
qed

lemma pay_preserves_ledger_ok:
  assumes "ledger_ok s" and "pay f pr req s = (r, s')"
  shows "ledger_ok s'"
proof -
  from pay_ledger [OF assms(2)] obtain extra0 where
    n: "nextId s \<le> nextId s'" and app: "payments s' = payments s @ extra0"
    and grow: "same_slots s s'
           \<or> (\<exists>ins n c extra. inv_postId ins = req_postId req
                  \<and> investors s' = investors s @ [ins\<lparr>inv_id := n\<rparr>]
                  \<and> nextId s \<le> n \<and> n < nextId s'
                  \<and> pay_postId c = req_postId req \<and> paymentType c = Content
                  \<and> payments s' = payments s @ c # extra)"
    by blast
  have ok: "distinct (map inv_id (investors s))" "\<And>i. i \<in> set (investors s) \<Longrightarrow> inv_id i < nextId s"
    using assms(1) by (simp_all add: ledger_ok_def)
  from grow show ?thesis
  proof
    assume same: "same_slots s s'"
    have ids: "map inv_id (investors s') = map inv_id (investors s)"
      using same by (rule same_slots_ids)
    show ?thesis
    proof (rule ledger_okI)
      show "distinct (map inv_id (investors s'))" using ids ok(1) by simp
      show "inv_id i < nextId s'" if "i \<in> set (investors s')" for i
      proof -
        have "inv_id i \<in> set (map inv_id (investors s))" using that ids by (metis image_eqI set_map)
        then show ?thesis using ok(2) n by fastforce
      qed
      show "getInvestorCount s' pid \<le> totalPayments s' pid" for pid
        using same_slots_count [OF same, of pid] ledger_ok_counts [OF assms(1), of pid]
          totalPayments_append [OF app, of pid] by simp
    qed
  next
    assume "\<exists>ins n c extra. inv_postId ins = req_postId req
                  \<and> investors s' = investors s @ [ins\<lparr>inv_id := n\<rparr>]
                  \<and> nextId s \<le> n \<and> n < nextId s'
                  \<and> pay_postId c = req_postId req \<and> paymentType c = Content
                  \<and> payments s' = payments s @ c # extra"
    then obtain ins m c extra where g: "inv_postId ins = req_postId req"
        "investors s' = investors s @ [ins\<lparr>inv_id := m\<rparr>]" "nextId s \<le> m" "m < nextId s'"
        "pay_postId c = req_postId req" "paymentType c = Content"
        "payments s' = payments s @ c # extra"
      by blast
    show ?thesis
    proof (rule ledger_okI)
      show "distinct (map inv_id (investors s'))"
        using ok g(2,3) by (fastforce simp: image_iff)
      show "inv_id i < nextId s'" if "i \<in> set (investors s')" for i
        using that g(2,4) ok(2) n by fastforce
      show "getInvestorCount s' pid \<le> totalPayments s' pid" for pid
      proof -
        have "getInvestorCount s' pid = getInvestorCount s pid + (if req_postId req = pid then 1 else 0)"
          using g(1,2) by (simp add: getInvestorCount_def investorsOfPost_def)
        moreover have "totalPayments s pid + (if req_postId req = pid then 1 else 0) \<le> totalPayments s' pid"
          using g(5,6,7) by (simp add: totalPayments_def)
        ultimately show ?thesis using ledger_ok_counts [OF assms(1), of pid] by simp
      qed
    qed
  qed
qed

lemma pay_all_preserves_ledger_ok:
  "ledger_ok s \<Longrightarrow> pay_all pr reqs s = (rs, s') \<Longrightarrow> ledger_ok s'"
proof (induction reqs arbitrary: s rs)
  case Nil
  then show ?case by simp
next
  case (Cons a reqs)
  obtain f req where a: "a = (f, req)" by (cases a)
  obtain r s1 where st: "pay f pr req s = (r, s1)" by fastforce
  obtain rs' where rest: "pay_all pr reqs s1 = (rs', s')"
    using Cons.prems(2) a st by (auto split: prod.splits)
  show ?case using Cons.IH [OF pay_preserves_ledger_ok [OF Cons.prems(1) st] rest] .
qed

lemma ledger_ok_empty:
  "investors s = [] \<Longrightarrow> ledger_ok s"
  by (simp add: ledger_ok_def)

lemma ledger_ok_assumptions:
  "ledger_ok s \<Longrightarrow>
   distinct (map inv_id (investors s)) \<and> getInvestorCount s pid \<le> totalPayments s pid"
  using ledger_ok_counts [of s pid] by (simp add: ledger_ok_def)

lemma ex_pool_store_ledger_ok: "ledger_ok ex_pool_store"
proof -
  have "ledger_ok ex_pool_start" by (rule ledger_ok_empty) (simp add: pool_defs)
  moreover have "pay_all False ex_buyouts ex_pool_start
      = ([Success False, Success False, Success False], ex_pool_store)"
    unfolding ex_pool_store_def ex_pool_run by simp
  ultimately show ?thesis by (rule pay_all_preserves_ledger_ok)
qed

end
